theory Spec2Isabelle
  imports Main
begin

section \<open>JavaScript values\<close>

text \<open>
  A JavaScript string is a sequence of UTF-16 code units; a code unit is a natural number
  here. \<open>lit\<close> turns a literal of the source text into its code units.
\<close>

type_synonym jsstring = "nat list"

definition lit :: "string \<Rightarrow> jsstring" where
  "lit s = map of_char s"

text \<open>
  The values the program passes around: the results of \<open>JSON.parse\<close>, the object literals
  it serialises, and \<open>undefined\<close>. A number is kept as the JSON literal that denotes it.
  An object is the list of its own properties in creation order, with distinct keys.
\<close>

datatype jsval =
    JUndefined
  | JNull
  | JBool bool
  | JNum jsstring
  | JStr jsstring
  | JArr "jsval list"
  | JObj "(jsstring \<times> jsval) list"

text \<open>
  What can be thrown: an \<open>Error\<close> instance with its message, the \<open>TypeError\<close> of the
  engine for an expression that reads a property of \<open>null\<close>/\<open>undefined\<close>, calls a
  non-function or converts an object that has no primitive value (it is kept with the name
  of the property or method the expression was after, \<open>toString\<close> for a conversion), the
  \<open>SyntaxError\<close> of \<open>JSON.parse\<close> on a text, and a value that is not an \<open>Error\<close>
  instance.
\<close>

datatype exn =
    Error jsstring
  | TypeError jsstring
  | SyntaxError jsstring
  | NonError

text \<open>
  What the engine decides and the source does not: the wording of its own error messages,
  and the arithmetic of numbers (floating point).
\<close>

record platform =
  typeErrorMessage :: "jsstring \<Rightarrow> jsstring"
  syntaxErrorMessage :: "jsstring \<Rightarrow> jsstring"
  numberToString :: "jsstring \<Rightarrow> jsstring"
  numberIsZero :: "jsstring \<Rightarrow> bool"
  numberIsFinite :: "jsstring \<Rightarrow> bool"

text \<open>\<open>error instanceof Error ? error.message : "Unknown error"\<close>\<close>

definition error_message :: "platform \<Rightarrow> exn \<Rightarrow> jsstring" where
  "error_message P e =
     (case e of
        Error m \<Rightarrow> m
      | TypeError x \<Rightarrow> typeErrorMessage P x
      | SyntaxError t \<Rightarrow> syntaxErrorMessage P t
      | NonError \<Rightarrow> lit ''Unknown error'')"

text \<open>\<open>s ?? d\<close> and the view of an optional string as a value.\<close>

definition str_or_undefined :: "jsstring option \<Rightarrow> jsval" where
  "str_or_undefined s = (case s of None \<Rightarrow> JUndefined | Some t \<Rightarrow> JStr t)"

text \<open>
  \<open>v.k\<close> for the property names this program reads (\<open>pose\<close>, \<open>type\<close>, \<open>data\<close>,
  \<open>base64ImageData\<close>, \<open>contentType\<close>): none of them is inherited, so only an object's own
  properties answer. \<open>own\<close> is the reading from a value that is neither \<open>null\<close> nor
  \<open>undefined\<close>; from these two the reading throws.
\<close>

definition own :: "jsval \<Rightarrow> jsstring \<Rightarrow> jsval" where
  "own v k =
     (case v of
        JObj kvs \<Rightarrow> (case map_of kvs k of None \<Rightarrow> JUndefined | Some x \<Rightarrow> x)
      | _ \<Rightarrow> JUndefined)"

definition get_prop :: "jsval \<Rightarrow> jsstring \<Rightarrow> exn + jsval" where
  "get_prop v k =
     (if v = JUndefined \<or> v = JNull then Inl (TypeError k) else Inr (own v k))"

text \<open>Truthiness (\<open>ToBoolean\<close>).\<close>

definition truthy :: "platform \<Rightarrow> jsval \<Rightarrow> bool" where
  "truthy P v =
     (case v of
        JUndefined \<Rightarrow> False
      | JNull \<Rightarrow> False
      | JBool b \<Rightarrow> b
      | JNum n \<Rightarrow> \<not> numberIsZero P n
      | JStr s \<Rightarrow> s \<noteq> []
      | JArr _ \<Rightarrow> True
      | JObj _ \<Rightarrow> True)"

text \<open>\<open>sep.join\<close> of strings.\<close>

fun join :: "jsstring \<Rightarrow> jsstring list \<Rightarrow> jsstring" where
  "join sep [] = []"
| "join sep [x] = x"
| "join sep (x # y # ys) = x @ sep @ join sep (y # ys)"

text \<open>
  \<open>ToString\<close>, as a template literal and \<open>new Error(message)\<close> apply it to a value that
  \<open>JSON.parse\<close> made. An array is converted by \<open>Array.prototype.toString\<close>: it joins its
  elements with commas, from left to right, \<open>null\<close> and \<open>undefined\<close> elements as empty
  strings. An object is converted by the \<open>toString\<close> it has: without a property of that
  name of its own it inherits \<open>Object.prototype.toString\<close> and is \<open>[object Object]\<close>; a
  property \<open>toString\<close> of its own holds a JSON value, which cannot be called, and as
  \<open>valueOf\<close> gives no primitive value either, the conversion throws a \<open>TypeError\<close>.
\<close>

fun to_string :: "platform \<Rightarrow> jsval \<Rightarrow> exn + jsstring"
  and to_string_elems :: "platform \<Rightarrow> jsval list \<Rightarrow> exn + jsstring list" where
  "to_string P JUndefined = Inr (lit ''undefined'')"
| "to_string P JNull = Inr (lit ''null'')"
| "to_string P (JBool b) = Inr (if b then lit ''true'' else lit ''false'')"
| "to_string P (JNum n) = Inr (numberToString P n)"
| "to_string P (JStr s) = Inr s"
| "to_string P (JArr vs) =
     (case to_string_elems P vs of
        Inl e \<Rightarrow> Inl e
      | Inr ss \<Rightarrow> Inr (join (lit '','') ss))"
| "to_string P (JObj kvs) =
     (if map_of kvs (lit ''toString'') = None then Inr (lit ''[object Object]'')
      else Inl (TypeError (lit ''toString'')))"
| "to_string_elems P [] = Inr []"
| "to_string_elems P (v # vs) =
     (case (case v of JUndefined \<Rightarrow> Inr [] | JNull \<Rightarrow> Inr [] | _ \<Rightarrow> to_string P v) of
        Inl e \<Rightarrow> Inl e
      | Inr t \<Rightarrow>
          (case to_string_elems P vs of
             Inl e \<Rightarrow> Inl e
           | Inr ss \<Rightarrow> Inr (t # ss)))"

section \<open>JSON.stringify\<close>

definition hex_digit :: "nat \<Rightarrow> nat" where
  "hex_digit d = (if d < 10 then 48 + d else 87 + d)"

text \<open>\<open>\uXXXX\<close> with four lower-case hexadecimal digits.\<close>

definition unicode_escape :: "nat \<Rightarrow> jsstring" where
  "unicode_escape c =
     [92, 117, hex_digit (c div 4096 mod 16), hex_digit (c div 256 mod 16),
      hex_digit (c div 16 mod 16), hex_digit (c mod 16)]"

definition is_lead :: "nat \<Rightarrow> bool" where
  "is_lead c \<longleftrightarrow> 55296 \<le> c \<and> c \<le> 56319"

definition is_trail :: "nat \<Rightarrow> bool" where
  "is_trail c \<longleftrightarrow> 56320 \<le> c \<and> c \<le> 57343"

text \<open>One code unit that is not half of a surrogate pair.\<close>

definition quote_unit :: "nat \<Rightarrow> jsstring" where
  "quote_unit c =
     (if c = 8 then [92, 98]
      else if c = 9 then [92, 116]
      else if c = 10 then [92, 110]
      else if c = 12 then [92, 102]
      else if c = 13 then [92, 114]
      else if c = 34 then [92, 34]
      else if c = 92 then [92, 92]
      else if c < 32 \<or> is_lead c \<or> is_trail c then unicode_escape c
      else [c])"

text \<open>A leading surrogate followed by a trailing one is one code point, copied as it is.\<close>

fun quote_units :: "jsstring \<Rightarrow> jsstring" where
  "quote_units [] = []"
| "quote_units [c] = quote_unit c"
| "quote_units (c # d # cs) =
     (if is_lead c \<and> is_trail d then c # d # quote_units cs
      else quote_unit c @ quote_units (d # cs))"

definition quote :: "jsstring \<Rightarrow> jsstring" where
  "quote s = [34] @ quote_units s @ [34]"

text \<open>
  \<open>JSON.stringify(v)\<close> with no indentation: \<open>None\<close> is the result \<open>undefined\<close>. A property
  whose value is \<open>undefined\<close> is left out of an object, and is \<open>null\<close> in an array.
\<close>

fun JSON_stringify :: "platform \<Rightarrow> jsval \<Rightarrow> jsstring option"
  and stringify_elems :: "platform \<Rightarrow> jsval list \<Rightarrow> jsstring list"
  and stringify_members :: "platform \<Rightarrow> (jsstring \<times> jsval) list \<Rightarrow> jsstring list" where
  "JSON_stringify P JUndefined = None"
| "JSON_stringify P JNull = Some (lit ''null'')"
| "JSON_stringify P (JBool b) = Some (if b then lit ''true'' else lit ''false'')"
| "JSON_stringify P (JNum n) =
     Some (if numberIsFinite P n then numberToString P n else lit ''null'')"
| "JSON_stringify P (JStr s) = Some (quote s)"
| "JSON_stringify P (JArr vs) = Some ([91] @ join [44] (stringify_elems P vs) @ [93])"
| "JSON_stringify P (JObj kvs) = Some ([123] @ join [44] (stringify_members P kvs) @ [125])"
| "stringify_elems P [] = []"
| "stringify_elems P (v # vs) =
     (case JSON_stringify P v of None \<Rightarrow> lit ''null'' | Some s \<Rightarrow> s) # stringify_elems P vs"
| "stringify_members P [] = []"
| "stringify_members P ((k, v) # kvs) =
     (case JSON_stringify P v of
        None \<Rightarrow> stringify_members P kvs
      | Some s \<Rightarrow> (quote k @ [58] @ s) # stringify_members P kvs)"

text \<open>\<open>JSON.stringify(v) + s\<close>\<close>

definition stringify_plus :: "platform \<Rightarrow> jsval \<Rightarrow> jsstring \<Rightarrow> jsstring" where
  "stringify_plus P v s =
     (case JSON_stringify P v of None \<Rightarrow> lit ''undefined'' | Some t \<Rightarrow> t) @ s"

section \<open>JSON.parse\<close>

definition is_json_ws :: "nat \<Rightarrow> bool" where
  "is_json_ws c \<longleftrightarrow> c = 32 \<or> c = 9 \<or> c = 10 \<or> c = 13"

definition skip_ws :: "jsstring \<Rightarrow> jsstring" where
  "skip_ws s = dropWhile is_json_ws s"

definition is_digit :: "nat \<Rightarrow> bool" where
  "is_digit c \<longleftrightarrow> 48 \<le> c \<and> c \<le> 57"

definition hex_value :: "nat \<Rightarrow> nat option" where
  "hex_value c =
     (if 48 \<le> c \<and> c \<le> 57 then Some (c - 48)
      else if 97 \<le> c \<and> c \<le> 102 then Some (c - 87)
      else if 65 \<le> c \<and> c \<le> 70 then Some (c - 55)
      else None)"

definition hex4 :: "nat \<Rightarrow> nat \<Rightarrow> nat \<Rightarrow> nat \<Rightarrow> nat option" where
  "hex4 a b c d =
     (case (hex_value a, hex_value b, hex_value c, hex_value d) of
        (Some x, Some y, Some z, Some u) \<Rightarrow> Some (((x * 16 + y) * 16 + z) * 16 + u)
      | _ \<Rightarrow> None)"

text \<open>The character after a backslash, other than \<open>u\<close>.\<close>

definition unescape :: "nat \<Rightarrow> nat option" where
  "unescape c =
     (if c = 34 then Some 34
      else if c = 92 then Some 92
      else if c = 47 then Some 47
      else if c = 98 then Some 8
      else if c = 102 then Some 12
      else if c = 110 then Some 10
      else if c = 114 then Some 13
      else if c = 116 then Some 9
      else None)"

text \<open>
  The characters of a string after its opening quote, up to the closing quote: the decoded
  string and the rest of the input. A raw control character is refused.
\<close>

fun parse_chars :: "jsstring \<Rightarrow> (jsstring \<times> jsstring) option" where
  "parse_chars [] = None"
| "parse_chars (c # cs) =
     (if c = 34 then Some ([], cs)
      else if c = 92 then
        (case cs of
           [] \<Rightarrow> None
         | e # r \<Rightarrow>
             if e = 117 then
               (case r of
                  h1 # h2 # h3 # h4 # r' \<Rightarrow>
                    (case hex4 h1 h2 h3 h4 of
                       None \<Rightarrow> None
                     | Some n \<Rightarrow> map_option (\<lambda>(t, rest). (n # t, rest)) (parse_chars r'))
                | _ \<Rightarrow> None)
             else
               (case unescape e of
                  None \<Rightarrow> None
                | Some x \<Rightarrow> map_option (\<lambda>(t, rest). (x # t, rest)) (parse_chars r)))
      else if c < 32 then None
      else map_option (\<lambda>(t, rest). (c # t, rest)) (parse_chars cs))"

text \<open>One or more digits.\<close>

definition digits1 :: "jsstring \<Rightarrow> (jsstring \<times> jsstring) option" where
  "digits1 s =
     (if takeWhile is_digit s = [] then None
      else Some (takeWhile is_digit s, dropWhile is_digit s))"

definition number_int :: "jsstring \<Rightarrow> (jsstring \<times> jsstring) option" where
  "number_int s =
     (case s of
        [] \<Rightarrow> None
      | d # r \<Rightarrow> if d = 48 then Some ([48], r) else digits1 s)"

definition number_frac :: "jsstring \<Rightarrow> (jsstring \<times> jsstring) option" where
  "number_frac s =
     (case s of
        [] \<Rightarrow> Some ([], s)
      | c # r \<Rightarrow>
          if c = 46 then map_option (\<lambda>(ds, rest). (c # ds, rest)) (digits1 r)
          else Some ([], s))"

definition number_exp :: "jsstring \<Rightarrow> (jsstring \<times> jsstring) option" where
  "number_exp s =
     (case s of
        [] \<Rightarrow> Some ([], s)
      | c # r \<Rightarrow>
          if c = 101 \<or> c = 69 then
            (case r of
               [] \<Rightarrow> None
             | g # r' \<Rightarrow>
                 if g = 43 \<or> g = 45
                 then map_option (\<lambda>(ds, rest). (c # g # ds, rest)) (digits1 r')
                 else map_option (\<lambda>(ds, rest). (c # ds, rest)) (digits1 r))
          else Some ([], s))"

text \<open>A number literal: the literal and the rest of the input.\<close>

definition parse_number :: "jsstring \<Rightarrow> (jsstring \<times> jsstring) option" where
  "parse_number s =
     (case (case s of [] \<Rightarrow> ([], s) | c # r \<Rightarrow> if c = 45 then ([c], r) else ([], s)) of
        (sign, s0) \<Rightarrow>
          (case number_int s0 of
             None \<Rightarrow> None
           | Some (ip, s1) \<Rightarrow>
               (case number_frac s1 of
                  None \<Rightarrow> None
                | Some (fp, s2) \<Rightarrow>
                    (case number_exp s2 of
                       None \<Rightarrow> None
                     | Some (ep, s3) \<Rightarrow> Some (sign @ ip @ fp @ ep, s3)))))"

definition starts_with :: "jsstring \<Rightarrow> jsstring \<Rightarrow> bool" where
  "starts_with p s \<longleftrightarrow> take (length p) s = p"

text \<open>
  Setting a property: a key that is already there keeps its place and takes the new
  value (the last of two equal keys in a JSON text wins).
\<close>

fun obj_set :: "jsstring \<Rightarrow> jsval \<Rightarrow> (jsstring \<times> jsval) list \<Rightarrow> (jsstring \<times> jsval) list" where
  "obj_set k v [] = [(k, v)]"
| "obj_set k v ((k', v') # kvs) =
     (if k' = k then (k, v) # kvs else (k', v') # obj_set k v kvs)"

text \<open>
  Recursive descent, one unit of fuel for each call: \<open>parse_value\<close> reads one value,
  \<open>parse_elements\<close> the elements of an array after its bracket, \<open>parse_members\<close> the
  members of an object after its brace.
\<close>

fun parse_value :: "nat \<Rightarrow> jsstring \<Rightarrow> (jsval \<times> jsstring) option"
  and parse_elements :: "nat \<Rightarrow> jsstring \<Rightarrow> (jsval list \<times> jsstring) option"
  and parse_members ::
    "nat \<Rightarrow> (jsstring \<times> jsval) list \<Rightarrow> jsstring \<Rightarrow> ((jsstring \<times> jsval) list \<times> jsstring) option"
  where
  "parse_value 0 s = None"
| "parse_value (Suc n) s =
     (case skip_ws s of
        [] \<Rightarrow> None
      | c # r \<Rightarrow>
          if c = 123 then
            (case skip_ws r of
               [] \<Rightarrow> None
             | d # r' \<Rightarrow>
                 if d = 125 then Some (JObj [], r')
                 else map_option (\<lambda>(kvs, rest). (JObj kvs, rest)) (parse_members n [] (d # r')))
          else if c = 91 then
            (case skip_ws r of
               [] \<Rightarrow> None
             | d # r' \<Rightarrow>
                 if d = 93 then Some (JArr [], r')
                 else map_option (\<lambda>(vs, rest). (JArr vs, rest)) (parse_elements n (d # r')))
          else if c = 34 then map_option (\<lambda>(t, rest). (JStr t, rest)) (parse_chars r)
          else if starts_with (lit ''true'') (c # r) then Some (JBool True, drop 4 (c # r))
          else if starts_with (lit ''false'') (c # r) then Some (JBool False, drop 5 (c # r))
          else if starts_with (lit ''null'') (c # r) then Some (JNull, drop 4 (c # r))
          else map_option (\<lambda>(t, rest). (JNum t, rest)) (parse_number (c # r)))"
| "parse_elements 0 s = None"
| "parse_elements (Suc n) s =
     (case parse_value n s of
        None \<Rightarrow> None
      | Some (v, r) \<Rightarrow>
          (case skip_ws r of
             [] \<Rightarrow> None
           | c # r' \<Rightarrow>
               if c = 44 then map_option (\<lambda>(vs, rest). (v # vs, rest)) (parse_elements n r')
               else if c = 93 then Some ([v], r')
               else None))"
| "parse_members 0 acc s = None"
| "parse_members (Suc n) acc s =
     (case skip_ws s of
        [] \<Rightarrow> None
      | c # r \<Rightarrow>
          if c \<noteq> 34 then None
          else
            (case parse_chars r of
               None \<Rightarrow> None
             | Some (k, r1) \<Rightarrow>
                 (case skip_ws r1 of
                    [] \<Rightarrow> None
                  | c1 # r2 \<Rightarrow>
                      if c1 \<noteq> 58 then None
                      else
                        (case parse_value n r2 of
                           None \<Rightarrow> None
                         | Some (v, r3) \<Rightarrow>
                             (case skip_ws r3 of
                                [] \<Rightarrow> None
                              | c3 # r4 \<Rightarrow>
                                  if c3 = 44 then parse_members n (obj_set k v acc) r4
                                  else if c3 = 125 then Some (obj_set k v acc, r4)
                                  else None)))))"

text \<open>
  \<open>JSON.parse(text)\<close>: one value, then only white space; anything else throws a
  \<open>SyntaxError\<close>. Every call of the descent consumes input at least every second step, so
  the fuel given here is more than a run can use (lemmas \<open>fuel_stable\<close> and
  \<open>fuel_enough\<close> below).
\<close>

definition JSON_parse :: "jsstring \<Rightarrow> exn + jsval" where
  "JSON_parse s =
     (case parse_value (2 * length s + 2) s of
        None \<Rightarrow> Inl (SyntaxError s)
      | Some (v, r) \<Rightarrow> if skip_ws r = [] then Inr v else Inl (SyntaxError s))"

section \<open>The remote model service\<close>

text \<open>
  The response of \<open>ai.models.generateContent\<close>, as far as the program reads it. Every field
  is optional, as the client library declares it; \<open>response_text\<close> is the library's
  \<open>response.text\<close>.
\<close>

record gen_blob =
  data :: "jsstring option"
  mimeType :: "jsstring option"

record gen_part =
  part_text :: "jsstring option"
  inlineData :: "gen_blob option"

record gen_content =
  parts :: "gen_part list option"

record gen_candidate =
  content :: "gen_content option"

record gen_response =
  candidates :: "gen_candidate list option"
  response_text :: "jsstring option"

text \<open>
  The request: the model, the prompt, the image sent inline (its bytes; the program sends
  them as base64 text) with its declared media type, and which of the two configurations
  of the source is used.
\<close>

datatype gen_config = ResponseModalitiesImage | JsonPoseArray

record gen_request =
  model :: jsstring
  promptText :: jsstring
  inlineMimeType :: jsstring
  inlineBytes :: "nat list"
  config :: gen_config

text \<open>
  The service is outside the program: a call takes the state of the world, and returns a
  response or rejects, with the next state of the world. A call starts from the state the
  call before it left.
\<close>

type_synonym 'w remote = "'w \<Rightarrow> gen_request \<Rightarrow> (exn + gen_response) \<times> 'w"

subsection \<open>nanobanana\<close>

text \<open>\<open>response.candidates?.[0]?.content?.parts ?? []\<close>\<close>

definition first_parts :: "gen_response \<Rightarrow> gen_part list" where
  "first_parts r =
     (case candidates r of
        None \<Rightarrow> []
      | Some [] \<Rightarrow> []
      | Some (c # _) \<Rightarrow>
          (case content c of
             None \<Rightarrow> []
           | Some ct \<Rightarrow> (case parts ct of None \<Rightarrow> [] | Some ps \<Rightarrow> ps)))"

definition image_result :: "gen_blob \<Rightarrow> jsval" where
  "image_result b =
     JObj [(lit ''type'', JStr (lit ''image'')),
           (lit ''base64ImageData'', str_or_undefined (data b)),
           (lit ''contentType'', str_or_undefined (mimeType b))]"

definition text_result :: "gen_response \<Rightarrow> jsval" where
  "text_result r =
     JObj [(lit ''type'', JStr (lit ''text'')),
           (lit ''data'', str_or_undefined (response_text r))]"

text \<open>
  The loop over the parts: the texts it prints with \<open>console.log\<close>, and the object it
  returns from inside the loop, if it does. \<open>if (part.text)\<close> is tried first: a part with a
  non-empty text is printed, and only a part without one is asked for \<open>inlineData\<close>.
\<close>

fun scan_parts :: "gen_part list \<Rightarrow> jsstring list \<times> jsval option" where
  "scan_parts [] = ([], None)"
| "scan_parts (p # ps) =
     (case (case part_text p of None \<Rightarrow> None | Some t \<Rightarrow> if t = [] then None else Some t) of
        Some t \<Rightarrow> (case scan_parts ps of (printed, res) \<Rightarrow> (t # printed, res))
      | None \<Rightarrow>
          (case inlineData p of
             Some b \<Rightarrow> ([], Some (image_result b))
           | None \<Rightarrow> scan_parts ps))"

definition nanobanana_result :: "gen_response \<Rightarrow> jsval" where
  "nanobanana_result r =
     (case snd (scan_parts (first_parts r)) of
        Some res \<Rightarrow> res
      | None \<Rightarrow> text_result r)"


definition nanobanana :: "'w remote \<Rightarrow> 'w \<Rightarrow> jsstring \<Rightarrow> nat list \<Rightarrow> (exn + jsval) \<times> 'w" where
  "nanobanana gc w prompt imageBuffer =
     (case gc w \<lparr>model = lit ''gemini-2.5-flash-image-preview'', promptText = prompt,
                 inlineMimeType = lit ''image/jpeg'', inlineBytes = imageBuffer,
                 config = ResponseModalitiesImage\<rparr> of
        (Inl e, w') \<Rightarrow> (Inl e, w')
      | (Inr r, w') \<Rightarrow> (Inr (nanobanana_result r), w'))"

subsection \<open>generatePosesFromImage\<close>

function decimal :: "nat \<Rightarrow> jsstring" where
  "decimal n = (if n < 10 then [48 + n] else decimal (n div 10) @ [48 + n mod 10])"
  by pat_completeness auto
termination
  by (relation "measure (\<lambda>n. n)") auto

definition planner_prompt :: "nat \<Rightarrow> jsstring" where
  "planner_prompt numPoses =
     lit ''Analyze the attached image and create '' @ decimal numPoses @
     lit '' sequential poses for a smooth stop-motion animation. \<newline>\<newline>For the character/object in the image:\<newline>1. Identify the main subject and its current pose/position\<newline>2. Create a natural progression of poses that would work well for stop-motion\<newline>3. Consider realistic movement constraints and physics\<newline>4. Ensure each pose flows logically to the next\<newline>5. Include subtle variations in positioning, rotation, and expression if applicable\<newline>\<newline>Each pose should be described clearly with specific details about:\<newline>- Body position and posture\<newline>- Limb placement and angles\<newline>- Facial expression (if visible)\<newline>- Any prop or object positioning\<newline>- Direction of movement or gaze\<newline>\<newline>Make the poses suitable for creating engaging, fluid stop-motion animation.''"

definition generatePosesFromImage ::
  "'w remote \<Rightarrow> 'w \<Rightarrow> nat list \<Rightarrow> jsstring \<Rightarrow> nat \<Rightarrow> (exn + jsstring option) \<times> 'w" where
  "generatePosesFromImage gc w buffer mime numPoses =
     (case gc w \<lparr>model = lit ''gemini-2.5-pro'', promptText = planner_prompt numPoses,
                 inlineMimeType = mime, inlineBytes = buffer,
                 config = JsonPoseArray\<rparr> of
        (Inl e, w') \<Rightarrow> (Inl e, w')
      | (Inr r, w') \<Rightarrow> (Inr (response_text r), w'))"

definition generatePosesFromImageBuffer ::
  "'w remote \<Rightarrow> 'w \<Rightarrow> nat list \<Rightarrow> jsstring \<Rightarrow> nat \<Rightarrow> (exn + jsstring option) \<times> 'w" where
  "generatePosesFromImageBuffer gc w buffer mime numPoses =
     generatePosesFromImage gc w buffer mime numPoses"

section \<open>The route: POST /api/stop-motion\<close>

definition CHUNK_END :: jsstring where
  "CHUNK_END = lit ''\<newline>---CHUNK_END---\<newline>''"

text \<open>
  The four object literals the route serialises. A frame carries the two properties read
  from the result of \<open>nanobanana\<close>.
\<close>

datatype event =
    PosesEvent jsval
  | FrameEvent jsval jsval
  | CompleteEvent
  | ErrorEvent jsstring

definition event_obj :: "event \<Rightarrow> jsval" where
  "event_obj e =
     (case e of
        PosesEvent poses \<Rightarrow> JObj [(lit ''type'', JStr (lit ''poses'')), (lit ''data'', poses)]
      | FrameEvent b c \<Rightarrow>
          JObj [(lit ''type'', JStr (lit ''nanobanana'')),
                (lit ''data'',
                 JObj [(lit ''type'', JStr (lit ''image'')),
                       (lit ''base64ImageData'', b),
                       (lit ''contentType'', c)])]
      | CompleteEvent \<Rightarrow>
          JObj [(lit ''type'', JStr (lit ''complete'')),
                (lit ''data'', JStr (lit ''Processing finished''))]
      | ErrorEvent m \<Rightarrow> JObj [(lit ''type'', JStr (lit ''error'')), (lit ''data'', JStr m)])"

text \<open>The serialised object, without and with the separator appended.\<close>

definition payload :: "platform \<Rightarrow> event \<Rightarrow> jsstring" where
  "payload P e = stringify_plus P (event_obj e) []"

definition encode :: "platform \<Rightarrow> event \<Rightarrow> jsstring" where
  "encode P e = stringify_plus P (event_obj e) CHUNK_END"

text \<open>
  The request, after \<open>request.formData()\<close>: the entries of the form in order, or the
  rejection of a body that is not a form. An entry is a text or a file; reading the bytes
  of a file may reject.
\<close>

record image_file =
  type :: jsstring
  arrayBuffer :: "exn + nat list"

datatype form_value = FormText jsstring | FormFile image_file

record request =
  formData :: "exn + (jsstring \<times> form_value) list"

text \<open>
  The state of one streamed response: the world of the remote service, the events handed
  to \<open>controller.enqueue\<close> in order, whether \<open>controller.close()\<close> was called, and a record
  of the calls of \<open>nanobanana\<close> made so far, each with its prompt and what it returned or
  threw. The consumer is taken to read the stream to its end, so that \<open>enqueue\<close> and
  \<open>close\<close> do not throw.
\<close>

record 'w run =
  world :: 'w
  queue :: "event list"
  closed :: bool
  renders :: "(jsstring \<times> (exn + jsval)) list"

definition enqueue :: "event \<Rightarrow> 'w run \<Rightarrow> 'w run" where
  "enqueue e s = s\<lparr>queue := queue s @ [e]\<rparr>"

definition close :: "'w run \<Rightarrow> 'w run" where
  "close s = s\<lparr>closed := True\<rparr>"

text \<open>
  The template literal of the loop body: its text around the pose, and its evaluation,
  which reads \<open>pose.pose\<close> and converts it to a string. Either step can throw.
\<close>

definition prompt_text :: "jsstring \<Rightarrow> jsstring" where
  "prompt_text t =
     lit ''Transform the character/object in the attached image to match this specific pose for stop-motion animation:\<newline>\<newline>'' @
     t @
     lit ''\<newline>\<newline>Requirements:\<newline>- Maintain the same character/object identity and visual style\<newline>- Apply the pose description precisely while keeping proportions realistic\<newline>- Preserve lighting and background elements from the original\<newline>- Ensure the transformation looks natural and suitable for frame-by-frame animation\<newline>- Keep image quality high and details sharp for stop-motion production\<newline>\<newline>Generate a clean, production-ready frame that matches the pose description exactly.''"

definition frame_prompt :: "platform \<Rightarrow> jsval \<Rightarrow> exn + jsstring" where
  "frame_prompt P pose =
     (case get_prop pose (lit ''pose'') of
        Inl e \<Rightarrow> Inl e
      | Inr d \<Rightarrow>
          (case to_string P d of
             Inl e \<Rightarrow> Inl e
           | Inr t \<Rightarrow> Inr (prompt_text t)))"

text \<open>
  \<open>if (nanobananaResult.type === "image") { ... enqueue ... }\<close>: the event to enqueue, if
  any.
\<close>

definition frame_of :: "jsval \<Rightarrow> exn + event option" where
  "frame_of r =
     (case get_prop r (lit ''type'') of
        Inl e \<Rightarrow> Inl e
      | Inr t \<Rightarrow>
          if t = JStr (lit ''image'') then
            (case get_prop r (lit ''base64ImageData'') of
               Inl e \<Rightarrow> Inl e
             | Inr b \<Rightarrow>
                 (case get_prop r (lit ''contentType'') of
                    Inl e \<Rightarrow> Inl e
                  | Inr c \<Rightarrow> Inr (Some (FrameEvent b c))))
          else Inr None)"

text \<open>
  \<open>for (const pose of posesJson) { ... }\<close>. The loop has no handler of its own: what is
  thrown in its body leaves the loop, and is returned here with the state reached. The
  body can throw before \<open>nanobanana\<close> is called (the template literal), in the call, and
  after it.
\<close>

fun for_poses ::
  "platform \<Rightarrow> 'w remote \<Rightarrow> nat list \<Rightarrow> jsval list \<Rightarrow> 'w run \<Rightarrow> exn option \<times> 'w run" where
  "for_poses P gc buffer [] s = (None, s)"
| "for_poses P gc buffer (pose # rest) s =
     (case frame_prompt P pose of
        Inl e \<Rightarrow> (Some e, s)
      | Inr prompt \<Rightarrow>
          (case nanobanana gc (world s) prompt buffer of
             (Inl e, w') \<Rightarrow>
               (Some e, s\<lparr>world := w', renders := renders s @ [(prompt, Inl e)]\<rparr>)
           | (Inr r, w') \<Rightarrow>
               (case frame_of r of
                  Inl e \<Rightarrow>
                    (Some e, s\<lparr>world := w', renders := renders s @ [(prompt, Inr r)]\<rparr>)
                | Inr None \<Rightarrow>
                    for_poses P gc buffer rest
                      (s\<lparr>world := w', renders := renders s @ [(prompt, Inr r)]\<rparr>)
                | Inr (Some ev) \<Rightarrow>
                    for_poses P gc buffer rest
                      (enqueue ev
                        (s\<lparr>world := w', renders := renders s @ [(prompt, Inr r)]\<rparr>)))))"

text \<open>
  The body of \<open>try\<close> in \<open>start(controller)\<close>: \<open>None\<close> when it ran to its end, the exception
  when it did not. \<open>image.arrayBuffer()\<close> on an entry that is a text is a call of a
  non-function.
\<close>

definition try_block ::
  "platform \<Rightarrow> 'w remote \<Rightarrow> form_value \<Rightarrow> 'w run \<Rightarrow> exn option \<times> 'w run" where
  "try_block P gc img s =
     (case (case img of
              FormText t \<Rightarrow> Inl (TypeError (lit ''arrayBuffer''))
            | FormFile f \<Rightarrow>
                (case arrayBuffer f of Inl e \<Rightarrow> Inl e | Inr b \<Rightarrow> Inr (b, type f))) of
        Inl e \<Rightarrow> (Some e, s)
      | Inr (buffer, mime) \<Rightarrow>
          (case generatePosesFromImageBuffer gc (world s) buffer mime 12 of
             (Inl e, w') \<Rightarrow> (Some e, s\<lparr>world := w'\<rparr>)
           | (Inr poses, w') \<Rightarrow>
               (case JSON_parse (case poses of None \<Rightarrow> lit ''[]'' | Some t \<Rightarrow> t) of
                  Inl e \<Rightarrow> (Some e, enqueue (PosesEvent (str_or_undefined poses)) (s\<lparr>world := w'\<rparr>))
                | Inr posesJson \<Rightarrow>
                    (case (case posesJson of
                             JArr ps \<Rightarrow>
                               for_poses P gc buffer ps
                                 (enqueue (PosesEvent (str_or_undefined poses)) (s\<lparr>world := w'\<rparr>))
                           | _ \<Rightarrow>
                               (None, enqueue (PosesEvent (str_or_undefined poses)) (s\<lparr>world := w'\<rparr>))) of
                       (Some e, s') \<Rightarrow> (Some e, s')
                     | (None, s') \<Rightarrow> (None, close (enqueue CompleteEvent s'))))))"

text \<open>\<open>start(controller)\<close>: the \<open>try\<close> body, and the \<open>catch\<close> that reports and closes.\<close>

definition start :: "platform \<Rightarrow> 'w remote \<Rightarrow> form_value \<Rightarrow> 'w \<Rightarrow> 'w run" where
  "start P gc img w =
     (case try_block P gc img \<lparr>world = w, queue = [], closed = False, renders = []\<rparr> of
        (None, s) \<Rightarrow> s
      | (Some e, s) \<Rightarrow> close (enqueue (ErrorEvent (error_message P e)) s))"

text \<open>
  What \<open>POST\<close> gives back: it rejects, or answers at once with a status and a JSON body,
  or answers with headers and a stream, whose run is kept here.
\<close>

datatype 'w outcome =
    Rejects exn
  | Responds nat jsval
  | Streams "(jsstring \<times> jsstring) list" "'w run"

definition POST :: "platform \<Rightarrow> 'w remote \<Rightarrow> request \<Rightarrow> 'w \<Rightarrow> 'w outcome" where
  "POST P gc req w =
     (case formData req of
        Inl e \<Rightarrow> Rejects e
      | Inr entries \<Rightarrow>
          (case map_of entries (lit ''image'') of
             None \<Rightarrow> Responds 400 (JObj [(lit ''error'', JStr (lit ''No image provided''))])
           | Some img \<Rightarrow>
               if img = FormText []
               then Responds 400 (JObj [(lit ''error'', JStr (lit ''No image provided''))])
               else Streams [(lit ''Content-Type'', lit ''application/json''),
                             (lit ''Transfer-Encoding'', lit ''chunked'')]
                            (start P gc img w)))"

text \<open>The events of the stream, and the text chunks that carry them.\<close>

definition stream_events :: "'w outcome \<Rightarrow> event list" where
  "stream_events out = (case out of Streams h s \<Rightarrow> queue s | _ \<Rightarrow> [])"

definition stream_opened :: "'w outcome \<Rightarrow> bool" where
  "stream_opened out = (case out of Streams h s \<Rightarrow> True | _ \<Rightarrow> False)"

definition wire :: "platform \<Rightarrow> event list \<Rightarrow> jsstring list" where
  "wire P evs = map (encode P) evs"

definition is_frame :: "event \<Rightarrow> bool" where
  "is_frame e = (case e of FrameEvent b c \<Rightarrow> True | _ \<Rightarrow> False)"

definition is_poses :: "event \<Rightarrow> bool" where
  "is_poses e = (case e of PosesEvent d \<Rightarrow> True | _ \<Rightarrow> False)"

definition is_terminal :: "event \<Rightarrow> bool" where
  "is_terminal e = (case e of CompleteEvent \<Rightarrow> True | ErrorEvent m \<Rightarrow> True | _ \<Rightarrow> False)"

section \<open>The page: generateAnimation\<close>

subsection \<open>String.prototype.split and trim\<close>

text \<open>The first occurrence of the separator: what is before it and what is after it.\<close>

fun find_sep :: "jsstring \<Rightarrow> jsstring \<Rightarrow> (jsstring \<times> jsstring) option" where
  "find_sep sep [] = (if sep = [] then Some ([], []) else None)"
| "find_sep sep (c # cs) =
     (if starts_with sep (c # cs) then Some ([], drop (length sep) (c # cs))
      else map_option (\<lambda>(a, b). (c # a, b)) (find_sep sep cs))"

lemma find_sep_shorter:
  "find_sep sep s = Some (a, b) \<Longrightarrow> sep \<noteq> [] \<Longrightarrow> length b < length s"
  by (induction s arbitrary: a) (auto split: if_splits)

text \<open>\<open>s.split(sep)\<close>: an empty separator splits between all code units.\<close>

function split_on :: "jsstring \<Rightarrow> jsstring \<Rightarrow> jsstring list" where
  "split_on sep s =
     (if sep = [] then map (\<lambda>c. [c]) s
      else
        (case find_sep sep s of
           None \<Rightarrow> [s]
         | Some (a, b) \<Rightarrow> a # split_on sep b))"
  by pat_completeness auto
termination
  by (relation "measure (\<lambda>(sep, s). length s)") (auto dest: find_sep_shorter)

declare split_on.simps [simp del]

text \<open>White space and line terminators, as \<open>trim\<close> strips them.\<close>

definition is_js_space :: "nat \<Rightarrow> bool" where
  "is_js_space c \<longleftrightarrow>
     c \<in> {9, 10, 11, 12, 13, 32, 160, 5760, 8232, 8233, 8239, 8287, 12288, 65279}
     \<or> (8192 \<le> c \<and> c \<le> 8202)"

definition trim :: "jsstring \<Rightarrow> jsstring" where
  "trim s = rev (dropWhile is_js_space (rev (dropWhile is_js_space s)))"

text \<open>\<open>parts.pop()\<close>: the last element, if there is one, and what is left.\<close>

definition pop :: "'a list \<Rightarrow> 'a option \<times> 'a list" where
  "pop xs = (case rev xs of [] \<Rightarrow> (None, []) | x # r \<Rightarrow> (Some x, rev r))"

subsection \<open>The state of the page\<close>

text \<open>
  A frame of the animation: its URL and the \<open>type\<close> given to its \<open>File\<close>. Its \<open>id\<close> is made
  from the clock and a random number, and is left out.
\<close>

record frame =
  url :: jsstring
  fileType :: jsstring

text \<open>
  The React state \<open>generateAnimation\<close> writes, and what else it does that can be seen:
  the delays of the \<open>setTimeout\<close> calls that will empty the progress text, the lines
  \<open>console.warn\<close> got with the error caught, the calls of \<open>alert\<close>, and the values
  \<open>JSON.parse\<close> returned in the loop, in order.
\<close>

record page =
  isGenerating :: bool
  generationProgress :: jsstring
  generatedPoses :: jsval
  generatedImages :: "jsstring list"
  frames :: "frame list"
  timers :: "nat list"
  warned :: "(jsstring \<times> exn) list"
  alerts :: "jsstring list"
  parsed :: "jsval list"

text \<open>\<open>a || b\<close>\<close>

definition or_else :: "platform \<Rightarrow> jsval \<Rightarrow> jsval \<Rightarrow> jsval" where
  "or_else P a b = (if truthy P a then a else b)"

text \<open>
  The \<open>case 'nanobanana'\<close> branch after the progress text is set. The condition
  \<open>data.data && data.data.type === 'image' && data.data.base64ImageData\<close> reads no
  property of \<open>null\<close> or \<open>undefined\<close>, as \<open>&&\<close> stops at a falsy \<open>data.data\<close>. The
  template literal of the URL converts the media type and then the data; when it throws,
  nothing of the state has been written yet. The \<open>File\<close> is given the media type again.
\<close>

definition add_frame :: "platform \<Rightarrow> jsval \<Rightarrow> page \<Rightarrow> exn option \<times> page" where
  "add_frame P d c =
     (if truthy P d \<and> own d (lit ''type'') = JStr (lit ''image'')
         \<and> truthy P (own d (lit ''base64ImageData''))
      then
        (case to_string P (or_else P (own d (lit ''contentType'')) (JStr (lit ''image/png''))) of
           Inl e \<Rightarrow> (Some e, c)
         | Inr contentType \<Rightarrow>
             (case to_string P (own d (lit ''base64ImageData'')) of
                Inl e \<Rightarrow> (Some e, c)
              | Inr base64ImageData \<Rightarrow>
                  (None,
                   c\<lparr>generatedImages :=
                       generatedImages c @
                         [lit ''data:'' @ contentType @ lit '';base64,'' @ base64ImageData],
                     frames :=
                       frames c @
                         [\<lparr>url = lit ''data:'' @ contentType @ lit '';base64,'' @ base64ImageData,
                           fileType = contentType\<rparr>]\<rparr>)))
      else (None, c))"

text \<open>
  \<open>switch (data.type) { ... }\<close>: what it threw, if anything, and the state. Reading
  \<open>data.type\<close> throws for \<open>null\<close>. The \<open>error\<close> case throws \<open>new Error(data.data)\<close>, whose
  message is the empty string for \<open>undefined\<close> and \<open>ToString\<close> of the value otherwise; when
  that conversion throws, its \<open>TypeError\<close> is what is thrown.
\<close>

definition dispatch :: "platform \<Rightarrow> jsval \<Rightarrow> page \<Rightarrow> exn option \<times> page" where
  "dispatch P d c =
     (case get_prop d (lit ''type'') of
        Inl e \<Rightarrow> (Some e, c)
      | Inr t \<Rightarrow>
          if t = JStr (lit ''poses'') then
            (None, c\<lparr>generationProgress := lit ''Poses generated! Creating animation frames...'',
                     generatedPoses := own d (lit ''data'')\<rparr>)
          else if t = JStr (lit ''nanobanana'') then
            add_frame P (own d (lit ''data''))
              (c\<lparr>generationProgress := lit ''Animation frame generated!''\<rparr>)
          else if t = JStr (lit ''complete'') then
            (None, c\<lparr>generationProgress := lit ''Animation generation complete!'',
                     timers := timers c @ [3000]\<rparr>)
          else if t = JStr (lit ''error'') then
            (case (if own d (lit ''data'') = JUndefined then Inr []
                   else to_string P (own d (lit ''data''))) of
               Inl e \<Rightarrow> (Some e, c)
             | Inr message \<Rightarrow> (Some (Error message), c))
          else (None, c))"

text \<open>
  One turn of \<open>for (const part of parts)\<close>: an empty line is passed over; the \<open>try\<close> parses
  and dispatches; its \<open>catch\<close> takes whatever was thrown inside, the \<open>Error\<close> of the
  \<open>error\<close> case included, and only warns.
\<close>

definition process_part :: "platform \<Rightarrow> page \<Rightarrow> jsstring \<Rightarrow> page" where
  "process_part P c part =
     (if trim part = [] then c
      else
        (case JSON_parse (trim part) of
           Inl e \<Rightarrow> c\<lparr>warned := warned c @ [(trim part, e)]\<rparr>
         | Inr d \<Rightarrow>
             (case dispatch P d (c\<lparr>parsed := parsed c @ [d]\<rparr>) of
                (None, c') \<Rightarrow> c'
              | (Some e, c') \<Rightarrow> c'\<lparr>warned := warned c' @ [(trim part, e)]\<rparr>)))"

text \<open>
  \<open>while (true) { read; if (done) break; ... }\<close> over the chunks of text the decoder
  gives, with the buffer kept between turns. \<open>TextDecoder\<close> in streaming mode gives, for any
  cut of the bytes, texts whose concatenation is the text sent.
\<close>

fun read_loop :: "platform \<Rightarrow> jsstring list \<Rightarrow> jsstring \<Rightarrow> page \<Rightarrow> jsstring \<times> page" where
  "read_loop P [] buffer c = (buffer, c)"
| "read_loop P (chunk # rest) buffer c =
     (case pop (split_on CHUNK_END (buffer @ chunk)) of
        (last_part, complete_parts) \<Rightarrow>
          read_loop P rest
            (case last_part of None \<Rightarrow> [] | Some b \<Rightarrow> b)
            (foldl (process_part P) c complete_parts))"

text \<open>
  The answer of \<open>fetch\<close>: \<open>ok\<close>, the status, what \<open>response.text()\<close> gives, and the body:
  the chunks of text read from it, and the error of the read after them if the stream
  breaks instead of ending.
\<close>

record body_stream =
  chunks :: "jsstring list"
  broken :: "exn option"

record http_response =
  ok :: bool
  status :: nat
  response_body_text :: "exn + jsstring"
  body :: "body_stream option"

text \<open>The \<open>try\<close> body of \<open>generateAnimation\<close>: what it threw, if anything, and the state.\<close>

definition try_generate :: "platform \<Rightarrow> exn + http_response \<Rightarrow> page \<Rightarrow> exn option \<times> page" where
  "try_generate P fetched c =
     (case fetched of
        Inl e \<Rightarrow> (Some e, c)
      | Inr response \<Rightarrow>
          if \<not> ok response then
            (case response_body_text response of
               Inl e \<Rightarrow> (Some e, c)
             | Inr errorText \<Rightarrow>
                 (Some (Error (lit ''Failed to generate animation: '' @ decimal (status response)
                                @ lit '' '' @ errorText)), c))
          else
            (case body response of
               None \<Rightarrow> (Some (Error (lit ''No response body reader available'')), c)
             | Some b \<Rightarrow> (broken b, snd (read_loop P (chunks b) [] c))))"

definition generateAnimation ::
  "platform \<Rightarrow> image_file option \<Rightarrow> exn + http_response \<Rightarrow> page \<Rightarrow> page" where
  "generateAnimation P lastSelectedFile fetched c =
     (case lastSelectedFile of
        None \<Rightarrow> c\<lparr>alerts := alerts c @ [lit ''Please select an image to generate an animation from.'']\<rparr>
      | Some f \<Rightarrow>
          (case try_generate P fetched
                  (c\<lparr>isGenerating := True, generationProgress := lit ''Starting generation...'',
                     generatedPoses := JNull, generatedImages := []\<rparr>) of
             (None, c') \<Rightarrow> c'\<lparr>isGenerating := False\<rparr>
           | (Some e, c') \<Rightarrow>
               c'\<lparr>generationProgress := lit ''Error: '' @ error_message P e,
                   timers := timers c' @ [5000],
                   isGenerating := False\<rparr>))"

section \<open>Notions the properties are stated with\<close>

text \<open>A result of \<open>nanobanana\<close> is image-tagged when its \<open>type\<close> is \<open>"image"\<close>.\<close>

definition image_tagged :: "jsval \<Rightarrow> bool" where
  "image_tagged r \<longleftrightarrow> own r (lit ''type'') = JStr (lit ''image'')"

text \<open>
  The frame events that a record of calls accounts for: one for each call that returned
  an image-tagged result, in the order of the calls.
\<close>

fun frames_of :: "(jsstring \<times> (exn + jsval)) list \<Rightarrow> event list" where
  "frames_of [] = []"
| "frames_of ((p, Inl e) # rs) = frames_of rs"
| "frames_of ((p, Inr r) # rs) =
     (if image_tagged r
      then FrameEvent (own r (lit ''base64ImageData'')) (own r (lit ''contentType'')) # frames_of rs
      else frames_of rs)"

text \<open>
  Calls made strictly one after the other: each call starts in the world the call before
  it left.
\<close>

fun call_in_turn ::
  "'w remote \<Rightarrow> nat list \<Rightarrow> jsstring list \<Rightarrow> 'w \<Rightarrow> (exn + jsval) list \<times> 'w" where
  "call_in_turn gc buffer [] w = ([], w)"
| "call_in_turn gc buffer (p # ps) w =
     (case nanobanana gc w p buffer of
        (out, w') \<Rightarrow>
          (case call_in_turn gc buffer ps w' of (outs, w'') \<Rightarrow> (out # outs, w'')))"

text \<open>The text contains the token.\<close>

fun occurs :: "jsstring \<Rightarrow> jsstring \<Rightarrow> bool" where
  "occurs t [] = (t = [])"
| "occurs t (c # cs) = (starts_with t (c # cs) \<or> occurs t cs)"

text \<open>
  The events whose data are strings or \<open>undefined\<close>, as the types of the route have them.
\<close>

definition str_or_undef :: "jsval \<Rightarrow> bool" where
  "str_or_undef v = (case v of JStr s \<Rightarrow> True | JUndefined \<Rightarrow> True | _ \<Rightarrow> False)"

definition wire_event :: "event \<Rightarrow> bool" where
  "wire_event e =
     (case e of
        PosesEvent d \<Rightarrow> str_or_undef d
      | FrameEvent b c \<Rightarrow> str_or_undef b \<and> str_or_undef c
      | _ \<Rightarrow> True)"

text \<open>
  What a reader of the serialised text can get back: the object without the properties
  whose value is \<open>undefined\<close>.
\<close>

definition defined_members :: "(jsstring \<times> jsval) list \<Rightarrow> (jsstring \<times> jsval) list" where
  "defined_members kvs = filter (\<lambda>kv. snd kv \<noteq> JUndefined) kvs"

definition received :: "event \<Rightarrow> jsval" where
  "received e =
     (case e of
        PosesEvent poses \<Rightarrow>
          JObj (defined_members [(lit ''type'', JStr (lit ''poses'')), (lit ''data'', poses)])
      | FrameEvent b c \<Rightarrow>
          JObj [(lit ''type'', JStr (lit ''nanobanana'')),
                (lit ''data'',
                 JObj (defined_members
                         [(lit ''type'', JStr (lit ''image'')),
                          (lit ''base64ImageData'', b),
                          (lit ''contentType'', c)]))]
      | _ \<Rightarrow> event_obj e)"

text \<open>
  \<open>if (part.text)\<close> holds for a part with a non-empty text. A part carries an image for the
  loop of \<open>nanobanana\<close> when it has no such text and has \<open>inlineData\<close>.
\<close>

definition has_text :: "gen_part \<Rightarrow> bool" where
  "has_text p = (case part_text p of None \<Rightarrow> False | Some t \<Rightarrow> t \<noteq> [])"

definition carries_image :: "gen_part \<Rightarrow> bool" where
  "carries_image p \<longleftrightarrow> \<not> has_text p \<and> inlineData p \<noteq> None"

text \<open>A call in the record returned (it did not throw).\<close>

definition returned :: "(jsstring \<times> (exn + jsval)) \<Rightarrow> bool" where
  "returned x = (case snd x of Inl e \<Rightarrow> False | Inr r \<Rightarrow> True)"

text \<open>
  The positions, counted from \<open>k\<close>, of the calls that returned an image-tagged result,
  and the frame event that one call accounts for.
\<close>

fun frame_indices :: "nat \<Rightarrow> (jsstring \<times> (exn + jsval)) list \<Rightarrow> nat list" where
  "frame_indices k [] = []"
| "frame_indices k ((p, Inl e) # rs) = frame_indices (Suc k) rs"
| "frame_indices k ((p, Inr r) # rs) =
     (if image_tagged r then k # frame_indices (Suc k) rs else frame_indices (Suc k) rs)"

definition frame_for :: "(jsstring \<times> (exn + jsval)) \<Rightarrow> event option" where
  "frame_for x =
     (case snd x of
        Inl e \<Rightarrow> None
      | Inr r \<Rightarrow>
          if image_tagged r
          then Some (FrameEvent (own r (lit ''base64ImageData'')) (own r (lit ''contentType'')))
          else None)"

section \<open>Concrete runs\<close>

text \<open>An engine, a scripted remote service whose world counts the calls, and a request.\<close>

definition example_platform :: platform where
  "example_platform =
     \<lparr>typeErrorMessage =
        (\<lambda>k. if k = lit ''toString'' then lit ''Cannot convert object to primitive value''
             else lit ''Cannot read properties of null (reading '' @ k @ lit '')''),
      syntaxErrorMessage = (\<lambda>t. lit ''Unexpected token in JSON''),
      numberToString = (\<lambda>n. n),
      numberIsZero = (\<lambda>n. n = [48]),
      numberIsFinite = (\<lambda>n. True)\<rparr>"

definition scripted :: "(exn + gen_response) list \<Rightarrow> nat remote" where
  "scripted outs w req = (if w < length outs then outs ! w else Inl NonError, Suc w)"

definition text_response :: "jsstring \<Rightarrow> gen_response" where
  "text_response t = \<lparr>candidates = None, response_text = Some t\<rparr>"

definition image_response :: "jsstring \<Rightarrow> jsstring \<Rightarrow> gen_response" where
  "image_response b m =
     \<lparr>candidates =
        Some [\<lparr>content =
                Some \<lparr>parts = Some [\<lparr>part_text = None,
                                      inlineData = Some \<lparr>data = Some b, mimeType = Some m\<rparr>\<rparr>]\<rparr>\<rparr>],
      response_text = None\<rparr>"

definition example_request :: request where
  "example_request =
     \<lparr>formData =
        Inr [(lit ''image'', FormFile \<lparr>type = lit ''image/png'', arrayBuffer = Inr [137, 80, 78, 71]\<rparr>)]\<rparr>"

definition three_poses :: jsstring where
  "three_poses = [91, 123, 34] @ lit ''pose'' @ [34, 58, 34] @ lit ''a'' @ [34, 125, 44,
                  123, 34] @ lit ''pose'' @ [34, 58, 34] @ lit ''b'' @ [34, 125, 44,
                  123, 34] @ lit ''pose'' @ [34, 58, 34] @ lit ''c'' @ [34, 125, 93]"

definition three_pose_values :: "jsval list" where
  "three_pose_values =
     [JObj [(lit ''pose'', JStr (lit ''a''))], JObj [(lit ''pose'', JStr (lit ''b''))],
      JObj [(lit ''pose'', JStr (lit ''c''))]]"

definition empty_page :: page where
  "empty_page =
     \<lparr>isGenerating = False, generationProgress = [], generatedPoses = JNull,
      generatedImages = [], frames = [], timers = [], warned = [], alerts = [], parsed = []\<rparr>"

definition streamed :: "jsstring list \<Rightarrow> exn + http_response" where
  "streamed cs =
     Inr \<lparr>ok = True, status = 200, response_body_text = Inr (concat cs),
          body = Some \<lparr>chunks = cs, broken = None\<rparr>\<rparr>"

text \<open>
  A request with no \<open>image\<close> field; a service that plans three poses and then returns an
  image, a text and an image; one that rejects the second render instead; and a response
  whose only part has both a text and an image.
\<close>

definition request_without_image :: request where
  "request_without_image = \<lparr>formData = Inr [(lit ''note'', FormText (lit ''hello''))]\<rparr>"

definition example_remote :: "nat remote" where
  "example_remote =
     scripted [Inr (text_response three_poses),
               Inr (image_response (lit ''AAAA'') (lit ''image/png'')),
               Inr (text_response (lit ''no image'')),
               Inr (image_response (lit ''BBBB'') (lit ''image/png''))]"

definition failing_remote :: "nat remote" where
  "failing_remote =
     scripted [Inr (text_response three_poses),
               Inr (image_response (lit ''AAAA'') (lit ''image/png'')),
               Inl (Error (lit ''boom'')),
               Inr (image_response (lit ''BBBB'') (lit ''image/png''))]"


text \<open>
  A planner output whose first pose is an object with a property \<open>toString\<close> of its own,
  which the template literal cannot convert, and a service that gives it.
\<close>

definition unprintable_poses :: jsstring where
  "unprintable_poses =
     [91, 123, 34] @ lit ''pose'' @ [34, 58, 123, 34] @ lit ''toString'' @ [34, 58, 34] @ lit ''x''
     @ [34, 125, 125, 44, 123, 34] @ lit ''pose'' @ [34, 58, 34] @ lit ''b'' @ [34, 125, 93]"

definition unprintable_remote :: "nat remote" where
  "unprintable_remote =
     scripted [Inr (text_response unprintable_poses),
               Inr (image_response (lit ''AAAA'') (lit ''image/png'')),
               Inr (image_response (lit ''BBBB'') (lit ''image/png''))]"

text \<open>Events as the route sends them, and the file the page has selected.\<close>

definition example_events :: "event list" where
  "example_events =
     [PosesEvent (JStr three_poses),
      FrameEvent (JStr (lit ''AAAA'')) (JStr (lit ''image/png'')),
      FrameEvent (JStr (lit ''BBBB'')) JUndefined,
      CompleteEvent]"

definition example_file :: image_file where
  "example_file = \<lparr>type = lit ''image/png'', arrayBuffer = Inr [137, 80, 78, 71]\<rparr>"

section \<open>Lemmas about the route\<close>

lemma lit_eq_iff [simp]: "lit a = lit b \<longleftrightarrow> a = b"
proof -
  have "inj (of_char :: char \<Rightarrow> nat)" by (rule inj_of_char)
  then show ?thesis by (simp add: lit_def inj_map_eq_map)
qed

lemma scan_parts_step:
  "scan_parts (p # ps) =
     (if has_text p then (case scan_parts ps of (printed, res) \<Rightarrow> (the (part_text p) # printed, res))
      else if carries_image p then ([], map_option image_result (inlineData p))
      else scan_parts ps)"
  by (auto simp: carries_image_def has_text_def split: option.splits prod.splits)

lemma scan_parts_find:
  "snd (scan_parts ps) =
     (case find carries_image ps of
        None \<Rightarrow> None
      | Some p \<Rightarrow> map_option image_result (inlineData p))"
proof (induction ps)
  case Nil
  show ?case by simp
next
  case (Cons p ps)
  have "has_text p \<Longrightarrow> \<not> carries_image p" by (simp add: carries_image_def)
  with Cons show ?case
    by (simp only: scan_parts_step find.simps) (auto split: prod.splits)
qed




lemma nanobanana_result_defined:
  "nanobanana_result r \<noteq> JUndefined" "nanobanana_result r \<noteq> JNull"
  by (auto simp: nanobanana_result_def scan_parts_find image_result_def text_result_def
      split: option.splits)

lemma nanobanana_cases:
  assumes "nanobanana gc w p b = (out, w')"
  shows "(\<exists>e. out = Inl e) \<or> (\<exists>r. out = Inr (nanobanana_result r))"
  using assms by (auto simp: nanobanana_def split: prod.splits sum.splits)

lemma frame_of_defined:
  assumes "v \<noteq> JUndefined" and "v \<noteq> JNull"
  shows "frame_of v =
           Inr (if image_tagged v
                then Some (FrameEvent (own v (lit ''base64ImageData'')) (own v (lit ''contentType'')))
                else None)"
  using assms by (simp add: frame_of_def get_prop_def image_tagged_def)

lemma frames_of_append: "frames_of (xs @ ys) = frames_of xs @ frames_of ys"
  by (induction xs rule: frames_of.induct) simp_all

lemma for_poses_run:
  assumes "for_poses P gc buffer ps s = (x, s')"
  shows "\<exists>rs. renders s' = renders s @ rs \<and> queue s' = queue s @ frames_of rs
            \<and> closed s' = closed s \<and> length rs \<le> length ps
            \<and> (\<forall>i<length rs. frame_prompt P (ps ! i) = Inr (fst (rs ! i)))
            \<and> call_in_turn gc buffer (map fst rs) (world s) = (map snd rs, world s')
            \<and> (case x of
                  None \<Rightarrow> length rs = length ps \<and> list_all returned rs
                | Some e \<Rightarrow>
                    (\<exists>pre p. rs = pre @ [(p, Inl e)] \<and> list_all returned pre)
                    \<or> (list_all returned rs \<and> length rs < length ps
                        \<and> frame_prompt P (ps ! length rs) = Inl e))"
  using assms
proof (induction ps arbitrary: s)
  case Nil
  then show ?case by (intro exI [of _ "[]"]) simp
next
  case (Cons pose rest)
  show ?case
  proof (cases "frame_prompt P pose")
    case (Inl e)
    with Cons.prems have "x = Some e" "s' = s" by simp_all
    with Inl show ?thesis by (intro exI [of _ "[]"]) simp
  next
    case pr: (Inr prompt)
    obtain out w' where nb: "nanobanana gc (world s) prompt buffer = (out, w')"
      by force
    show ?thesis
    proof (cases out)
      case (Inl e)
      with Cons.prems pr nb
      have "x = Some e"
        "s' = s\<lparr>world := w', renders := renders s @ [(prompt, Inl e)]\<rparr>"
        by simp_all
      with nb Inl pr show ?thesis
        by (intro exI [of _ "[(prompt, Inl e)]"]) simp
    next
      case (Inr r)
      define s1 where "s1 = s\<lparr>world := w', renders := renders s @ [(prompt, Inr r)]\<rparr>"
      define s2 where
        "s2 = (if image_tagged r
               then enqueue (FrameEvent (own r (lit ''base64ImageData'')) (own r (lit ''contentType''))) s1
               else s1)"
      from nb Inr nanobanana_cases [OF nb] have "r \<noteq> JUndefined" "r \<noteq> JNull"
        by (auto simp: nanobanana_result_defined)
      then have fr: "frame_of r =
           Inr (if image_tagged r
                then Some (FrameEvent (own r (lit ''base64ImageData'')) (own r (lit ''contentType'')))
                else None)"
        by (rule frame_of_defined)
      from Cons.prems pr nb Inr fr
      have run: "for_poses P gc buffer rest s2 = (x, s')"
        by (simp add: s1_def s2_def split: if_splits)
      from Cons.IH [OF run] obtain rs where rs:
        "renders s' = renders s2 @ rs" "queue s' = queue s2 @ frames_of rs"
        "closed s' = closed s2" "length rs \<le> length rest"
        "\<forall>i<length rs. frame_prompt P (rest ! i) = Inr (fst (rs ! i))"
        "call_in_turn gc buffer (map fst rs) (world s2) = (map snd rs, world s')"
        "case x of
           None \<Rightarrow> length rs = length rest \<and> list_all returned rs
         | Some e \<Rightarrow>
             (\<exists>pre p. rs = pre @ [(p, Inl e)] \<and> list_all returned pre)
             \<or> (list_all returned rs \<and> length rs < length rest
                 \<and> frame_prompt P (rest ! length rs) = Inl e)"
        by blast
      have s2: "renders s2 = renders s @ [(prompt, Inr r)]"
        "queue s2 = queue s @ frames_of [(prompt, Inr r)]"
        "closed s2 = closed s" "world s2 = w'"
        by (simp_all add: s1_def s2_def enqueue_def)
      let ?rs = "(prompt, Inr r) # rs"
      have 1: "renders s' = renders s @ ?rs" using rs(1) s2(1) by simp
      have 2: "queue s' = queue s @ frames_of ?rs"
        using rs(2) s2(2) frames_of_append [of "[(prompt, Inr r)]" rs] by simp
      have 3: "closed s' = closed s" using rs(3) s2(3) by simp
      have 4: "length ?rs \<le> length (pose # rest)" using rs(4) by simp
      have 5: "\<forall>i<length ?rs. frame_prompt P ((pose # rest) ! i) = Inr (fst (?rs ! i))"
        using rs(5) pr by (auto simp: nth_Cons split: nat.splits)
      have 6: "call_in_turn gc buffer (map fst ?rs) (world s) = (map snd ?rs, world s')"
        using rs(6) s2(4) nb Inr by simp
      have 7: "case x of
           None \<Rightarrow> length ?rs = length (pose # rest) \<and> list_all returned ?rs
         | Some e \<Rightarrow>
             (\<exists>pre p. ?rs = pre @ [(p, Inl e)] \<and> list_all returned pre)
             \<or> (list_all returned ?rs \<and> length ?rs < length (pose # rest)
                 \<and> frame_prompt P ((pose # rest) ! length ?rs) = Inl e)"
      proof (cases x)
        case None
        with rs(7) show ?thesis by (simp add: returned_def)
      next
        case (Some e)
        with rs(7) consider
          (a) pre p where "rs = pre @ [(p, Inl e)]" "list_all returned pre"
          | (b) "list_all returned rs" "length rs < length rest"
            "frame_prompt P (rest ! length rs) = Inl e"
          by auto
        then show ?thesis
        proof cases
          case a
          then have "?rs = ((prompt, Inr r) # pre) @ [(p, Inl e)]"
            "list_all returned ((prompt, Inr r) # pre)"
            by (simp_all add: returned_def)
          with Some show ?thesis by (simp only: option.case) blast
        next
          case b
          with Some show ?thesis by (simp add: returned_def)
        qed
      qed
      from 1 2 3 4 5 6 7 show ?thesis by blast
    qed
  qed
qed

lemma POST_streams:
  assumes "POST P gc req w = Streams h s"
  shows "\<exists>entries img. formData req = Inr entries \<and> map_of entries (lit ''image'') = Some img
           \<and> img \<noteq> FormText [] \<and> s = start P gc img w"
  using assms by (auto simp: POST_def split: sum.splits option.splits if_splits)

lemma start_text:
  "start P gc (FormText t) w =
     \<lparr>world = w, queue = [ErrorEvent (error_message P (TypeError (lit ''arrayBuffer'')))],
      closed = True, renders = []\<rparr>"
  by (simp add: start_def try_block_def enqueue_def close_def)

lemma start_unreadable:
  assumes "arrayBuffer f = Inl e"
  shows "start P gc (FormFile f) w =
           \<lparr>world = w, queue = [ErrorEvent (error_message P e)], closed = True, renders = []\<rparr>"
  using assms by (simp add: start_def try_block_def enqueue_def close_def)

lemma start_planner_fails:
  assumes "arrayBuffer f = Inr buffer"
    and "generatePosesFromImageBuffer gc w buffer (type f) 12 = (Inl e, w')"
  shows "start P gc (FormFile f) w =
           \<lparr>world = w', queue = [ErrorEvent (error_message P e)], closed = True, renders = []\<rparr>"
  using assms by (simp add: start_def try_block_def enqueue_def close_def)

lemma start_parse_fails:
  assumes "arrayBuffer f = Inr buffer"
    and "generatePosesFromImageBuffer gc w buffer (type f) 12 = (Inr poses, w')"
    and "JSON_parse (case poses of None \<Rightarrow> lit ''[]'' | Some t \<Rightarrow> t) = Inl e"
  shows "start P gc (FormFile f) w =
           \<lparr>world = w', queue = [PosesEvent (str_or_undefined poses), ErrorEvent (error_message P e)],
            closed = True, renders = []\<rparr>"
  using assms by (simp add: start_def try_block_def enqueue_def close_def)

lemma start_not_array:
  assumes "arrayBuffer f = Inr buffer"
    and "generatePosesFromImageBuffer gc w buffer (type f) 12 = (Inr poses, w')"
    and "JSON_parse (case poses of None \<Rightarrow> lit ''[]'' | Some t \<Rightarrow> t) = Inr v"
    and "\<forall>ps. v \<noteq> JArr ps"
  shows "start P gc (FormFile f) w =
           \<lparr>world = w', queue = [PosesEvent (str_or_undefined poses), CompleteEvent],
            closed = True, renders = []\<rparr>"
  using assms by (cases v) (simp_all add: start_def try_block_def enqueue_def close_def)

lemma start_array:
  assumes "arrayBuffer f = Inr buffer"
    and "generatePosesFromImageBuffer gc w buffer (type f) 12 = (Inr poses, w')"
    and "JSON_parse (case poses of None \<Rightarrow> lit ''[]'' | Some t \<Rightarrow> t) = Inr (JArr ps)"
    and "for_poses P gc buffer ps
           \<lparr>world = w', queue = [PosesEvent (str_or_undefined poses)], closed = False, renders = []\<rparr>
         = (x, s2)"
  shows "start P gc (FormFile f) w =
           close (enqueue (case x of None \<Rightarrow> CompleteEvent | Some e \<Rightarrow> ErrorEvent (error_message P e)) s2)"
  using assms by (cases x) (simp_all add: start_def try_block_def enqueue_def close_def)

lemma frames_of_frames: "list_all is_frame (frames_of rs)"
  by (induction rs rule: frames_of.induct) (simp_all add: is_frame_def)

lemma frames_of_returned_last:
  "frames_of (rs @ [(p, Inl e)]) = frames_of rs"
  by (simp add: frames_of_append)

lemma start_structure:
  assumes "s = start P gc img w"
  shows "closed s \<and>
    (\<exists>pre t. queue s = pre @ frames_of (renders s) @ [t]
       \<and> (pre = [] \<and> renders s = [] \<and> t \<noteq> CompleteEvent \<or> (\<exists>d. pre = [PosesEvent d]))
       \<and> (t = CompleteEvent \<and> list_all returned (renders s)
          \<or> (\<exists>e. t = ErrorEvent (error_message P e)
                \<and> (list_all returned (renders s)
                    \<or> (\<exists>rs p. renders s = rs @ [(p, Inl e)] \<and> list_all returned rs)))))"
proof (cases img)
  case (FormText t)
  with assms show ?thesis by (auto simp: start_text)
next
  case (FormFile f)
  show ?thesis
  proof (cases "arrayBuffer f")
    case (Inl e0)
    with FormFile assms show ?thesis by (auto simp: start_unreadable)
  next
    case (Inr buffer)
    obtain pl w' where pl: "generatePosesFromImageBuffer gc w buffer (type f) 12 = (pl, w')"
      by force
    show ?thesis
    proof (cases pl)
      case (Inl e)
      with start_planner_fails [OF Inr, of gc w e w' P] pl FormFile assms show ?thesis by auto
    next
      case poses: (Inr poses)
      show ?thesis
      proof (cases "JSON_parse (case poses of None \<Rightarrow> lit ''[]'' | Some t \<Rightarrow> t)")
        case (Inl e)
        with start_parse_fails [OF Inr, of gc w poses w' e P] pl poses FormFile assms
        show ?thesis by auto
      next
        case v: (Inr v)
        show ?thesis
        proof (cases "\<exists>ps. v = JArr ps")
          case False
          then have "\<forall>ps. v \<noteq> JArr ps" by simp
          with start_not_array [OF Inr, of gc w poses w' v P] pl poses v FormFile assms
          show ?thesis by auto
        next
          case True
          then obtain ps where ps: "v = JArr ps" by blast
          let ?s1 = "\<lparr>world = w', queue = [PosesEvent (str_or_undefined poses)], closed = False, renders = []\<rparr>"
          obtain x s2 where run: "for_poses P gc buffer ps ?s1 = (x, s2)" by force
          from for_poses_run [OF run] obtain rs where rs:
            "renders s2 = rs" "queue s2 = [PosesEvent (str_or_undefined poses)] @ frames_of rs"
            "case x of
               None \<Rightarrow> length rs = length ps \<and> list_all returned rs
             | Some e \<Rightarrow>
                 (\<exists>pre p. rs = pre @ [(p, Inl e)] \<and> list_all returned pre)
                 \<or> (list_all returned rs \<and> length rs < length ps
                     \<and> frame_prompt P (ps ! length rs) = Inl e)"
            by auto
          have s: "s = close (enqueue (case x of None \<Rightarrow> CompleteEvent | Some e \<Rightarrow> ErrorEvent (error_message P e)) s2)"
            using start_array [OF Inr, of gc w poses w' ps P x s2] pl poses v ps run FormFile assms
            by simp
          show ?thesis
          proof (cases x)
            case None
            with s rs show ?thesis by (simp add: close_def enqueue_def)
          next
            case (Some e)
            with s rs show ?thesis by (auto simp: close_def enqueue_def)
          qed
        qed
      qed
    qed
  qed
qed

lemma three_poses_parsed:
  "JSON_parse three_poses =
     Inr (JArr [JObj [(lit ''pose'', JStr (lit ''a''))], JObj [(lit ''pose'', JStr (lit ''b''))],
                JObj [(lit ''pose'', JStr (lit ''c''))]])"
  by code_simp

lemmas run_defs = POST_def start_def try_block_def example_request_def
  generatePosesFromImageBuffer_def generatePosesFromImage_def scripted_def text_response_def
  image_response_def nanobanana_def nanobanana_result_def first_parts_def image_result_def
  text_result_def frame_of_def get_prop_def own_def enqueue_def close_def str_or_undefined_def
  error_message_def stream_events_def stream_opened_def example_remote_def failing_remote_def
  image_tagged_def frame_prompt_def

lemma frame_indices_bounds:
  "i \<in> set (frame_indices k rs) \<Longrightarrow> k \<le> i \<and> i < k + length rs"
  by (induction k rs rule: frame_indices.induct) (auto split: if_splits)

lemma frame_indices_sorted: "sorted_wrt (<) (frame_indices k rs)"
  by (induction k rs rule: frame_indices.induct) (auto dest: frame_indices_bounds)

lemma nth_Cons_shift:
  assumes "Suc k \<le> i"
  shows "(y # rs) ! (i - k) = rs ! (i - Suc k)"
proof -
  from assms have "i - k = Suc (i - Suc k)" by arith
  then show ?thesis by simp
qed

lemma frames_of_indices:
  "map Some (frames_of rs) = map (\<lambda>i. frame_for (rs ! (i - k))) (frame_indices k rs)"
proof (induction k rs rule: frame_indices.induct)
  case (1 k)
  show ?case by simp
next
  case (2 k p e rs)
  have "map (\<lambda>i. frame_for (((p, Inl e) # rs) ! (i - k))) (frame_indices (Suc k) rs)
        = map (\<lambda>i. frame_for (rs ! (i - Suc k))) (frame_indices (Suc k) rs)"
    by (rule map_cong) (auto dest!: frame_indices_bounds simp: nth_Cons_shift)
  with 2 show ?case by simp
next
  case (3 k p r rs)
  have "map (\<lambda>i. frame_for (((p, Inr r) # rs) ! (i - k))) (frame_indices (Suc k) rs)
        = map (\<lambda>i. frame_for (rs ! (i - Suc k))) (frame_indices (Suc k) rs)"
    by (rule map_cong) (auto dest!: frame_indices_bounds simp: nth_Cons_shift)
  with 3 show ?case by (simp add: frame_for_def)
qed

lemma upt_shift: "[k..<k + length (y # rs)] = k # [Suc k..<Suc k + length rs]"
  by (simp add: upt_conv_Cons del: upt_Suc)

lemma frame_indices_filter:
  "frame_indices k rs = filter (\<lambda>i. frame_for (rs ! (i - k)) \<noteq> None) [k..<k + length rs]"
proof (induction k rs rule: frame_indices.induct)
  case (1 k)
  show ?case by simp
next
  case (2 k p e rs)
  have c: "filter (\<lambda>i. frame_for (((p, Inl e) # rs) ! (i - k)) \<noteq> None) [Suc k..<Suc k + length rs]
        = filter (\<lambda>i. frame_for (rs ! (i - Suc k)) \<noteq> None) [Suc k..<Suc k + length rs]"
  proof (rule filter_cong [OF refl])
    fix i
    assume "i \<in> set [Suc k..<Suc k + length rs]"
    then have "Suc k \<le> i" by (simp only: set_upt atLeastLessThan_iff)
    then show "(frame_for (((p, Inl e) # rs) ! (i - k)) \<noteq> None) = (frame_for (rs ! (i - Suc k)) \<noteq> None)"
      by (simp only: nth_Cons_shift)
  qed
  have h: "frame_for (((p, Inl e) # rs) ! (k - k)) = None" by (simp add: frame_for_def)
  have "frame_indices k ((p, Inl e) # rs) = frame_indices (Suc k) rs" by simp
  also have "\<dots> = filter (\<lambda>i. frame_for (rs ! (i - Suc k)) \<noteq> None) [Suc k..<Suc k + length rs]"
    by (rule 2)
  also have "\<dots> = filter (\<lambda>i. frame_for (((p, Inl e) # rs) ! (i - k)) \<noteq> None)
                     (k # [Suc k..<Suc k + length rs])"
    unfolding filter.simps h c by simp
  finally show ?case unfolding upt_shift .
next
  case (3 k p r rs)
  have c: "filter (\<lambda>i. frame_for (((p, Inr r) # rs) ! (i - k)) \<noteq> None) [Suc k..<Suc k + length rs]
        = filter (\<lambda>i. frame_for (rs ! (i - Suc k)) \<noteq> None) [Suc k..<Suc k + length rs]"
  proof (rule filter_cong [OF refl])
    fix i
    assume "i \<in> set [Suc k..<Suc k + length rs]"
    then have "Suc k \<le> i" by (simp only: set_upt atLeastLessThan_iff)
    then show "(frame_for (((p, Inr r) # rs) ! (i - k)) \<noteq> None) = (frame_for (rs ! (i - Suc k)) \<noteq> None)"
      by (simp only: nth_Cons_shift)
  qed
  have h: "(frame_for (((p, Inr r) # rs) ! (k - k)) \<noteq> None) = image_tagged r"
    by (simp add: frame_for_def)
  have f: "frame_indices (Suc k) rs
        = filter (\<lambda>i. frame_for (rs ! (i - Suc k)) \<noteq> None) [Suc k..<Suc k + length rs]"
    using 3 by blast
  have "filter (\<lambda>i. frame_for (((p, Inr r) # rs) ! (i - k)) \<noteq> None)
                     (k # [Suc k..<Suc k + length rs])
        = (if image_tagged r then k # frame_indices (Suc k) rs else frame_indices (Suc k) rs)"
    unfolding filter.simps h c f by simp
  then have "frame_indices k ((p, Inr r) # rs)
        = filter (\<lambda>i. frame_for (((p, Inr r) # rs) ! (i - k)) \<noteq> None)
                     (k # [Suc k..<Suc k + length rs])"
    by simp
  then show ?case unfolding upt_shift .
qed

lemma filter_frames_append:
  "filter is_frame (PosesEvent d # frames_of rs @ [t]) = frames_of rs @ filter is_frame [t]"
  using frames_of_frames [of rs]
  by (simp add: is_frame_def list_all_iff filter_id_conv)

lemma length_frames_of: "length (frames_of rs) \<le> length rs"
  by (induction rs rule: frames_of.induct) (auto simp: le_SucI)

lemma example_request_form:
  "formData example_request =
     Inr [(lit ''image'', FormFile \<lparr>type = lit ''image/png'', arrayBuffer = Inr [137, 80, 78, 71]\<rparr>)]"
  "map_of [(lit ''image'', FormFile \<lparr>type = lit ''image/png'', arrayBuffer = Inr [137, 80, 78, 71]\<rparr>)]
     (lit ''image'') = Some (FormFile \<lparr>type = lit ''image/png'', arrayBuffer = Inr [137, 80, 78, 71]\<rparr>)"
  "arrayBuffer \<lparr>type = lit ''image/png'', arrayBuffer = Inr [137, 80, 78, 71]\<rparr> = Inr [137, 80, 78, 71]"
  by (simp_all add: example_request_def)

lemma example_POST:
  "POST P gc example_request w =
     Streams [(lit ''Content-Type'', lit ''application/json''), (lit ''Transfer-Encoding'', lit ''chunked'')]
       (start P gc (FormFile \<lparr>type = lit ''image/png'', arrayBuffer = Inr [137, 80, 78, 71]\<rparr>) w)"
  by (simp add: POST_def example_request_def)

lemma lit_eq_Nil [simp]: "lit s = [] \<longleftrightarrow> s = []" "[] = lit s \<longleftrightarrow> s = []"
  by (auto simp: lit_def)

lemma planner_returns:
  "generatePosesFromImageBuffer (scripted (Inr (text_response t) # outs)) 0 [137, 80, 78, 71]
     (type \<lparr>type = lit ''image/png'', arrayBuffer = Inr [137, 80, 78, 71]\<rparr>) 12
   = (Inr (Some t), 1)"
  by (simp add: generatePosesFromImageBuffer_def generatePosesFromImage_def scripted_def
      text_response_def)

lemma failing_run:
  "start example_platform failing_remote
     (FormFile \<lparr>type = lit ''image/png'', arrayBuffer = Inr [137, 80, 78, 71]\<rparr>) 0
   = \<lparr>world = 3,
      queue = [PosesEvent (JStr three_poses),
               FrameEvent (JStr (lit ''AAAA'')) (JStr (lit ''image/png'')),
               ErrorEvent (lit ''boom'')],
      closed = True,
      renders = [(prompt_text (lit ''a''),
                    Inr (JObj [(lit ''type'', JStr (lit ''image'')),
                               (lit ''base64ImageData'', JStr (lit ''AAAA'')),
                               (lit ''contentType'', JStr (lit ''image/png''))])),
                 (prompt_text (lit ''b''), Inl (Error (lit ''boom'')))]\<rparr>"
  by (simp add: run_defs three_poses_parsed)

lemma example_run:
  "start example_platform example_remote
     (FormFile \<lparr>type = lit ''image/png'', arrayBuffer = Inr [137, 80, 78, 71]\<rparr>) 0
   = \<lparr>world = 4,
      queue = [PosesEvent (JStr three_poses),
               FrameEvent (JStr (lit ''AAAA'')) (JStr (lit ''image/png'')),
               FrameEvent (JStr (lit ''BBBB'')) (JStr (lit ''image/png'')),
               CompleteEvent],
      closed = True,
      renders = [(prompt_text (lit ''a''),
                    Inr (JObj [(lit ''type'', JStr (lit ''image'')),
                               (lit ''base64ImageData'', JStr (lit ''AAAA'')),
                               (lit ''contentType'', JStr (lit ''image/png''))])),
                 (prompt_text (lit ''b''),
                    Inr (JObj [(lit ''type'', JStr (lit ''text'')),
                               (lit ''data'', JStr (lit ''no image''))])),
                 (prompt_text (lit ''c''),
                    Inr (JObj [(lit ''type'', JStr (lit ''image'')),
                               (lit ''base64ImageData'', JStr (lit ''BBBB'')),
                               (lit ''contentType'', JStr (lit ''image/png''))]))]\<rparr>"
  by (simp add: run_defs three_poses_parsed)

text \<open>
  The conversions of the template literal, and the run in which the first pose cannot be
  converted: the loop is left before any render, and the stream is \<open>poses\<close>, \<open>error\<close>.
\<close>

lemma unprintable_poses_parsed:
  "JSON_parse unprintable_poses =
     Inr (JArr [JObj [(lit ''pose'', JObj [(lit ''toString'', JStr (lit ''x''))])],
                JObj [(lit ''pose'', JStr (lit ''b''))]])"
  by code_simp

lemma to_string_examples:
  "to_string P (JStr s) = Inr s"
  "to_string P (JObj [(lit ''pose'', JStr s)]) = Inr (lit ''[object Object]'')"
  "to_string P (JObj [(lit ''toString'', v)]) = Inl (TypeError (lit ''toString''))"
  "to_string P (JArr [JStr (lit ''a''), JNull, JArr [JStr (lit ''b''), JStr (lit ''c'')]])
     = Inr (lit ''a,,b,c'')"
  "to_string P (JArr [JStr (lit ''a''), JObj [(lit ''toString'', v)]]) = Inl (TypeError (lit ''toString''))"
  by (simp_all add: lit_def)

lemma frame_prompt_cases:
  "frame_prompt P JNull = Inl (TypeError (lit ''pose''))"
  "frame_prompt P (JObj [(lit ''pose'', JStr t)]) = Inr (prompt_text t)"
  "frame_prompt P (JStr t) = Inr (prompt_text (lit ''undefined''))"
  "frame_prompt P (JObj [(lit ''pose'', JObj [(lit ''toString'', v)])]) = Inl (TypeError (lit ''toString''))"
  by (simp_all add: frame_prompt_def get_prop_def own_def)

lemma unprintable_run:
  "start example_platform unprintable_remote
     (FormFile \<lparr>type = lit ''image/png'', arrayBuffer = Inr [137, 80, 78, 71]\<rparr>) 0
   = \<lparr>world = 1,
      queue = [PosesEvent (JStr unprintable_poses),
               ErrorEvent (lit ''Cannot convert object to primitive value'')],
      closed = True,
      renders = []\<rparr>"
  by (simp add: run_defs unprintable_poses_parsed unprintable_remote_def example_platform_def)

section \<open>The claims about the route and the renderer\<close>

text \<open>
  Claim C9. A request whose form has no \<open>image\<close> field is answered at once with status
  400 and the JSON body \<open>{error: "No image provided"}\<close>: no stream is opened and no event
  of any kind is produced.
\<close>

theorem missing_image_is_rejected:
  assumes "formData req = Inr entries" and "map_of entries (lit ''image'') = None"
  shows "POST P gc req w = Responds 400 (JObj [(lit ''error'', JStr (lit ''No image provided''))])
         \<and> \<not> stream_opened (POST P gc req w) \<and> stream_events (POST P gc req w) = []"
  using assms by (simp add: POST_def stream_opened_def stream_events_def)

text \<open>
  Witness of C9: a form whose only field is a note.
\<close>

theorem missing_image_is_rejected_witness:
  "formData request_without_image = Inr [(lit ''note'', FormText (lit ''hello''))]
   \<and> map_of [(lit ''note'', FormText (lit ''hello''))] (lit ''image'') = None
   \<and> POST example_platform (scripted []) request_without_image 0
       = Responds 400 (JObj [(lit ''error'', JStr (lit ''No image provided''))])
   \<and> \<not> stream_opened (POST example_platform (scripted []) request_without_image 0)
   \<and> stream_events (POST example_platform (scripted []) request_without_image 0) = []"
proof -
  have 1: "formData request_without_image = Inr [(lit ''note'', FormText (lit ''hello''))]"
    by (simp add: request_without_image_def)
  have 2: "map_of [(lit ''note'', FormText (lit ''hello''))] (lit ''image'') = None"
    by simp
  from missing_image_is_rejected [OF 1 2, of example_platform "scripted []" 0] 1 2
  show ?thesis by (simp add: stream_opened_def stream_events_def)
qed

text \<open>
  Claim C6. When the call of the pose planner rejects, the stream carries exactly one
  event, the \<open>error\<close> event with the message of the rejection, and is closed; there is no
  frame event, \<open>nanobanana\<close> is never called (the record of its calls is empty), and the
  world is the one the planner's call left.
\<close>

theorem planner_failure_is_one_error:
  assumes "formData req = Inr entries"
    and "map_of entries (lit ''image'') = Some (FormFile f)"
    and "arrayBuffer f = Inr buffer"
    and "generatePosesFromImageBuffer gc w buffer (type f) 12 = (Inl e, w')"
  shows "POST P gc req w =
           Streams [(lit ''Content-Type'', lit ''application/json''),
                    (lit ''Transfer-Encoding'', lit ''chunked'')]
             \<lparr>world = w', queue = [ErrorEvent (error_message P e)], closed = True, renders = []\<rparr>"
  using assms start_planner_fails [of f buffer gc w e w' P]
  by (simp add: POST_def)

text \<open>
  Witness of C6: the planner's call rejects with \<open>down\<close>.
\<close>

theorem planner_failure_is_one_error_witness:
  "formData example_request =
     Inr [(lit ''image'', FormFile \<lparr>type = lit ''image/png'', arrayBuffer = Inr [137, 80, 78, 71]\<rparr>)]
   \<and> generatePosesFromImageBuffer (scripted [Inl (Error (lit ''down''))]) 0 [137, 80, 78, 71]
        (lit ''image/png'') 12 = (Inl (Error (lit ''down'')), 1)
   \<and> POST example_platform (scripted [Inl (Error (lit ''down''))]) example_request 0 =
        Streams [(lit ''Content-Type'', lit ''application/json''),
                 (lit ''Transfer-Encoding'', lit ''chunked'')]
          \<lparr>world = 1, queue = [ErrorEvent (lit ''down'')], closed = True, renders = []\<rparr>"
proof -
  have 4: "generatePosesFromImageBuffer (scripted [Inl (Error (lit ''down''))]) 0 [137, 80, 78, 71]
        (type \<lparr>type = lit ''image/png'', arrayBuffer = Inr [137, 80, 78, 71]\<rparr>) 12
        = (Inl (Error (lit ''down'')), 1)"
    by (simp add: generatePosesFromImageBuffer_def generatePosesFromImage_def scripted_def)
  from planner_failure_is_one_error [OF example_request_form 4, of example_platform] 4
    example_request_form(1)
  show ?thesis by (simp add: error_message_def)
qed

text \<open>
  Claim C7, amended. A planner output that parses to a value that is not an array gives
  the \<open>poses\<close> event and then \<open>complete\<close>, with no frame event and no call of
  \<open>nanobanana\<close>; so does an output that is \<open>undefined\<close>, which is parsed as \<open>[]\<close>. An
  output that does not parse does not reach \<open>complete\<close>: \<open>JSON.parse\<close> throws inside the
  one \<open>try\<close> of the route, and the stream is the \<open>poses\<close> event followed by one \<open>error\<close>
  event with the message of the \<open>SyntaxError\<close>, again with no frame event and no call of
  \<open>nanobanana\<close>.
\<close>

theorem poses_that_are_no_list:
  assumes "formData req = Inr entries"
    and "map_of entries (lit ''image'') = Some (FormFile f)"
    and "arrayBuffer f = Inr buffer"
    and "generatePosesFromImageBuffer gc w buffer (type f) 12 = (Inr poses, w')"
  shows "(\<forall>v. JSON_parse (case poses of None \<Rightarrow> lit ''[]'' | Some t \<Rightarrow> t) = Inr v
              \<and> (\<forall>ps. v \<noteq> JArr ps) \<longrightarrow>
            POST P gc req w =
              Streams [(lit ''Content-Type'', lit ''application/json''),
                       (lit ''Transfer-Encoding'', lit ''chunked'')]
                \<lparr>world = w', queue = [PosesEvent (str_or_undefined poses), CompleteEvent],
                 closed = True, renders = []\<rparr>)
       \<and> (\<forall>e. JSON_parse (case poses of None \<Rightarrow> lit ''[]'' | Some t \<Rightarrow> t) = Inl e \<longrightarrow>
            POST P gc req w =
              Streams [(lit ''Content-Type'', lit ''application/json''),
                       (lit ''Transfer-Encoding'', lit ''chunked'')]
                \<lparr>world = w',
                 queue = [PosesEvent (str_or_undefined poses), ErrorEvent (error_message P e)],
                 closed = True, renders = []\<rparr>)
       \<and> (poses = None \<longrightarrow>
            POST P gc req w =
              Streams [(lit ''Content-Type'', lit ''application/json''),
                       (lit ''Transfer-Encoding'', lit ''chunked'')]
                \<lparr>world = w', queue = [PosesEvent JUndefined, CompleteEvent],
                 closed = True, renders = []\<rparr>)"
proof -
  have post: "POST P gc req w =
      Streams [(lit ''Content-Type'', lit ''application/json''),
               (lit ''Transfer-Encoding'', lit ''chunked'')] (start P gc (FormFile f) w)"
    using assms(1,2) by (simp add: POST_def)
  have a: "start P gc (FormFile f) w =
      \<lparr>world = w', queue = [PosesEvent (str_or_undefined poses), CompleteEvent],
       closed = True, renders = []\<rparr>"
    if "JSON_parse (case poses of None \<Rightarrow> lit ''[]'' | Some t \<Rightarrow> t) = Inr v"
      and "\<forall>ps. v \<noteq> JArr ps" for v
    using start_not_array [OF assms(3,4) that] .
  have b: "start P gc (FormFile f) w =
      \<lparr>world = w', queue = [PosesEvent (str_or_undefined poses), ErrorEvent (error_message P e)],
       closed = True, renders = []\<rparr>"
    if "JSON_parse (case poses of None \<Rightarrow> lit ''[]'' | Some t \<Rightarrow> t) = Inl e" for e
    using start_parse_fails [OF assms(3,4) that] .
  have empty: "JSON_parse (lit ''[]'') = Inr (JArr [])" by code_simp
  have c: "start P gc (FormFile f) w =
      \<lparr>world = w', queue = [PosesEvent JUndefined, CompleteEvent], closed = True, renders = []\<rparr>"
    if "poses = None"
  proof -
    have "for_poses P gc buffer []
           \<lparr>world = w', queue = [PosesEvent (str_or_undefined poses)], closed = False, renders = []\<rparr>
          = (None, \<lparr>world = w', queue = [PosesEvent (str_or_undefined poses)], closed = False, renders = []\<rparr>)"
      by simp
    from start_array [OF assms(3,4) _ this] that empty show ?thesis
      by (simp add: close_def enqueue_def str_or_undefined_def)
  qed
  from post a b c show ?thesis by simp
qed

text \<open>
  Witness of C7: the planner answers \<open>null\<close>, and the planner answers \<open>not json\<close>.
\<close>

theorem poses_that_are_no_list_witness:
  "JSON_parse (lit ''null'') = Inr JNull
   \<and> POST example_platform (scripted [Inr (text_response (lit ''null''))]) example_request 0 =
        Streams [(lit ''Content-Type'', lit ''application/json''),
                 (lit ''Transfer-Encoding'', lit ''chunked'')]
          \<lparr>world = 1, queue = [PosesEvent (JStr (lit ''null'')), CompleteEvent],
           closed = True, renders = []\<rparr>
   \<and> JSON_parse (lit ''not json'') = Inl (SyntaxError (lit ''not json''))
   \<and> POST example_platform (scripted [Inr (text_response (lit ''not json''))]) example_request 0 =
        Streams [(lit ''Content-Type'', lit ''application/json''),
                 (lit ''Transfer-Encoding'', lit ''chunked'')]
          \<lparr>world = 1,
           queue = [PosesEvent (JStr (lit ''not json'')), ErrorEvent (lit ''Unexpected token in JSON'')],
           closed = True, renders = []\<rparr>"
proof -
  have n: "JSON_parse (lit ''null'') = Inr JNull" by code_simp
  have b: "JSON_parse (lit ''not json'') = Inl (SyntaxError (lit ''not json''))" by code_simp
  from poses_that_are_no_list [OF example_request_form planner_returns [of "lit ''null''" "[]"],
      where P = example_platform] n
  have 1: "POST example_platform (scripted [Inr (text_response (lit ''null''))]) example_request 0 =
        Streams [(lit ''Content-Type'', lit ''application/json''),
                 (lit ''Transfer-Encoding'', lit ''chunked'')]
          \<lparr>world = 1, queue = [PosesEvent (JStr (lit ''null'')), CompleteEvent],
           closed = True, renders = []\<rparr>"
    by (simp add: str_or_undefined_def)
  from poses_that_are_no_list [OF example_request_form planner_returns [of "lit ''not json''" "[]"],
      where P = example_platform] b
  have 2: "POST example_platform (scripted [Inr (text_response (lit ''not json''))]) example_request 0 =
        Streams [(lit ''Content-Type'', lit ''application/json''),
                 (lit ''Transfer-Encoding'', lit ''chunked'')]
          \<lparr>world = 1,
           queue = [PosesEvent (JStr (lit ''not json'')), ErrorEvent (lit ''Unexpected token in JSON'')],
           closed = True, renders = []\<rparr>"
    by (simp add: str_or_undefined_def error_message_def example_platform_def)
  from n b 1 2 show ?thesis by simp
qed

text \<open>
  Counterexample to C7 as stated: the planner's text \<open>{oops\<close> does not parse, and the stream
  ends with \<open>error\<close>, not with \<open>complete\<close>.
\<close>

theorem unparseable_poses_end_in_error:
  "JSON_parse (lit ''{oops'') = Inl (SyntaxError (lit ''{oops''))
   \<and> stream_events (POST example_platform (scripted [Inr (text_response (lit ''{oops''))])
        example_request 0)
      = [PosesEvent (JStr (lit ''{oops'')), ErrorEvent (lit ''Unexpected token in JSON'')]
   \<and> CompleteEvent \<notin> set (stream_events
        (POST example_platform (scripted [Inr (text_response (lit ''{oops''))]) example_request 0))"
proof -
  have b: "JSON_parse (lit ''{oops'') = Inl (SyntaxError (lit ''{oops''))" by code_simp
  then show ?thesis by (simp add: run_defs example_platform_def)
qed




text \<open>
  Claim C2, amended. The events of a stream are: at most one \<open>poses\<close> event, first when it
  is there; then zero or more frame events; then exactly one terminal event (\<open>complete\<close>
  or \<open>error\<close>), after which the stream is closed and carries nothing more. A stream with
  no \<open>poses\<close> event is a single \<open>error\<close> event.
\<close>

theorem stream_shape:
  assumes "POST P gc req w = Streams h s"
  shows "closed s
    \<and> (\<exists>pre fs t. queue s = pre @ fs @ [t]
          \<and> (pre = [] \<and> fs = [] \<and> (\<exists>m. t = ErrorEvent m) \<or> (\<exists>d. pre = [PosesEvent d]))
          \<and> list_all is_frame fs \<and> is_terminal t)"
proof -
  from POST_streams [OF assms] obtain img where s: "s = start P gc img w" by blast
  from start_structure [OF s] obtain pre t where st:
    "closed s" "queue s = pre @ frames_of (renders s) @ [t]"
    "pre = [] \<and> renders s = [] \<and> t \<noteq> CompleteEvent \<or> (\<exists>d. pre = [PosesEvent d])"
    "t = CompleteEvent \<or> (\<exists>e. t = ErrorEvent (error_message P e))"
    by blast
  from st(4) have terminal: "is_terminal t" by (auto simp: is_terminal_def)
  from st(3,4) have "pre = [] \<and> frames_of (renders s) = [] \<and> (\<exists>m. t = ErrorEvent m)
      \<or> (\<exists>d. pre = [PosesEvent d])"
    by auto
  with st(1,2) terminal frames_of_frames [of "renders s"] show ?thesis by blast
qed

text \<open>
  Witness of C2: the run with three poses.
\<close>

theorem stream_shape_witness:
  "POST example_platform example_remote example_request 0 =
     Streams [(lit ''Content-Type'', lit ''application/json''),
              (lit ''Transfer-Encoding'', lit ''chunked'')]
       (start example_platform example_remote
          (FormFile \<lparr>type = lit ''image/png'', arrayBuffer = Inr [137, 80, 78, 71]\<rparr>) 0)
   \<and> closed (start example_platform example_remote
          (FormFile \<lparr>type = lit ''image/png'', arrayBuffer = Inr [137, 80, 78, 71]\<rparr>) 0)
   \<and> (\<exists>pre fs t.
         queue (start example_platform example_remote
           (FormFile \<lparr>type = lit ''image/png'', arrayBuffer = Inr [137, 80, 78, 71]\<rparr>) 0)
           = pre @ fs @ [t]
         \<and> (pre = [] \<and> fs = [] \<and> (\<exists>m. t = ErrorEvent m) \<or> (\<exists>d. pre = [PosesEvent d]))
         \<and> list_all is_frame fs \<and> is_terminal t)"
  by (rule conjI [OF example_POST stream_shape [OF example_POST]])

text \<open>
  Counterexample to C2 as stated: the planner's call rejects after the stream is opened;
  the stream has no \<open>poses\<close> event.
\<close>

theorem failed_planner_stream_has_no_poses:
  "stream_opened (POST example_platform (scripted [Inl (Error (lit ''down''))]) example_request 0)
   \<and> stream_events (POST example_platform (scripted [Inl (Error (lit ''down''))]) example_request 0)
       = [ErrorEvent (lit ''down'')]
   \<and> filter is_poses
       (stream_events (POST example_platform (scripted [Inl (Error (lit ''down''))]) example_request 0))
       = []"
  by (simp add: run_defs is_poses_def)

text \<open>
  Claim C1, amended. The loop over the poses has no handler of its own. When a call of
  \<open>nanobanana\<close> rejects, it is the last call made: the stream is the \<open>poses\<close> event, the
  frame events of the image results of the calls before it, and one \<open>error\<close> event with the
  message of the rejection; it is then closed, so no \<open>complete\<close> event is sent and no later
  pose is rendered.
\<close>

theorem rejected_render_ends_stream:
  assumes "POST P gc req w = Streams h s" and "(p, Inl e) \<in> set (renders s)"
  shows "\<exists>d rs. renders s = rs @ [(p, Inl e)] \<and> list_all returned rs
           \<and> queue s = PosesEvent d # frames_of rs @ [ErrorEvent (error_message P e)]
           \<and> closed s"
proof -
  from POST_streams [OF assms(1)] obtain img where s: "s = start P gc img w" by blast
  from start_structure [OF s] obtain pre t where st:
    "closed s" "queue s = pre @ frames_of (renders s) @ [t]"
    "pre = [] \<and> renders s = [] \<and> t \<noteq> CompleteEvent \<or> (\<exists>d. pre = [PosesEvent d])"
    "t = CompleteEvent \<and> list_all returned (renders s)
     \<or> (\<exists>e'. t = ErrorEvent (error_message P e')
           \<and> (list_all returned (renders s)
               \<or> (\<exists>rs p'. renders s = rs @ [(p', Inl e')] \<and> list_all returned rs)))"
    by blast
  have "\<not> returned (p, Inl e)" by (simp add: returned_def)
  with assms(2) have not_all: "\<not> list_all returned (renders s)"
    by (auto simp: list_all_iff)
  with st(4) obtain e' rs p' where rs:
    "t = ErrorEvent (error_message P e')" "renders s = rs @ [(p', Inl e')]" "list_all returned rs"
    by blast
  from assms(2) rs(2,3) \<open>\<not> returned (p, Inl e)\<close> have same: "(p, Inl e) = (p', Inl e')"
    by (auto simp: list_all_iff)
  from assms(2) st(3) obtain d where d: "pre = [PosesEvent d]" by auto
  from st(2) d rs same have "queue s = PosesEvent d # frames_of rs @ [ErrorEvent (error_message P e)]"
    by (simp add: frames_of_append)
  with rs same st(1) show ?thesis by auto
qed

text \<open>
  Witness of C1: the second of three renders rejects with \<open>boom\<close>.
\<close>

theorem rejected_render_ends_stream_witness:
  "POST example_platform failing_remote example_request 0 =
     Streams [(lit ''Content-Type'', lit ''application/json''),
              (lit ''Transfer-Encoding'', lit ''chunked'')]
       (start example_platform failing_remote
          (FormFile \<lparr>type = lit ''image/png'', arrayBuffer = Inr [137, 80, 78, 71]\<rparr>) 0)
   \<and> (prompt_text (lit ''b''), Inl (Error (lit ''boom'')))
       \<in> set (renders (start example_platform failing_remote
          (FormFile \<lparr>type = lit ''image/png'', arrayBuffer = Inr [137, 80, 78, 71]\<rparr>) 0))
   \<and> (\<exists>d rs.
         renders (start example_platform failing_remote
           (FormFile \<lparr>type = lit ''image/png'', arrayBuffer = Inr [137, 80, 78, 71]\<rparr>) 0)
           = rs @ [(prompt_text (lit ''b''), Inl (Error (lit ''boom'')))]
         \<and> list_all returned rs
         \<and> queue (start example_platform failing_remote
              (FormFile \<lparr>type = lit ''image/png'', arrayBuffer = Inr [137, 80, 78, 71]\<rparr>) 0)
             = PosesEvent d # frames_of rs @ [ErrorEvent (error_message example_platform (Error (lit ''boom'')))]
         \<and> closed (start example_platform failing_remote
              (FormFile \<lparr>type = lit ''image/png'', arrayBuffer = Inr [137, 80, 78, 71]\<rparr>) 0))"
proof -
  have m: "(prompt_text (lit ''b''), Inl (Error (lit ''boom'')))
       \<in> set (renders (start example_platform failing_remote
          (FormFile \<lparr>type = lit ''image/png'', arrayBuffer = Inr [137, 80, 78, 71]\<rparr>) 0))"
    by (simp add: failing_run)
  show ?thesis
    by (intro conjI example_POST m rejected_render_ends_stream [OF example_POST m])
qed

text \<open>
  Counterexample to C1 as stated: the second of three renders rejects; there is no frame
  event for the third pose and no \<open>complete\<close> event.
\<close>

theorem later_poses_are_not_rendered:
  "stream_events (POST example_platform failing_remote example_request 0)
     = [PosesEvent (JStr three_poses),
        FrameEvent (JStr (lit ''AAAA'')) (JStr (lit ''image/png'')),
        ErrorEvent (lit ''boom'')]
   \<and> CompleteEvent \<notin> set (stream_events (POST example_platform failing_remote example_request 0))
   \<and> FrameEvent (JStr (lit ''BBBB'')) (JStr (lit ''image/png''))
        \<notin> set (stream_events (POST example_platform failing_remote example_request 0))"
  by (simp add: example_POST stream_events_def failing_run)

text \<open>
  Claim C3. When the planner's output parses to an array of \<open>N\<close> poses, the stream is the
  \<open>poses\<close> event, the frame events and one last event. The renders are made one after the
  other, each starting in the world the one before left, and the \<open>i\<close>-th render made is the
  one for the \<open>i\<close>-th pose, with the prompt made from it. The loop goes on after every render
  that returns, image-tagged or text-tagged: it ends after the render for the last pose,
  and the last event is \<open>complete\<close>, or it ends at the first render that rejects or the
  first pose whose prompt cannot be made, and the last event is the \<open>error\<close> event of what
  was thrown. The frame events of the stream are exactly the frames of the renders that
  returned an image-tagged result, in the order of the renders (a text-tagged result gives
  none); so there are at most \<open>N\<close> of them, and the positions of the poses they belong to
  increase strictly.
\<close>

theorem frames_follow_pose_order:
  assumes "formData req = Inr entries"
    and "map_of entries (lit ''image'') = Some (FormFile f)"
    and "arrayBuffer f = Inr buffer"
    and "generatePosesFromImageBuffer gc w buffer (type f) 12 = (Inr poses, w1)"
    and "JSON_parse (case poses of None \<Rightarrow> lit ''[]'' | Some t \<Rightarrow> t) = Inr (JArr ps)"
  shows "\<exists>h s t. POST P gc req w = Streams h s
     \<and> queue s = PosesEvent (str_or_undefined poses) # frames_of (renders s) @ [t]
     \<and> length (renders s) \<le> length ps
     \<and> (\<forall>i<length (renders s). frame_prompt P (ps ! i) = Inr (fst (renders s ! i)))
     \<and> call_in_turn gc buffer (map fst (renders s)) w1 = (map snd (renders s), world s)
     \<and> (length (renders s) = length ps \<and> list_all returned (renders s) \<and> t = CompleteEvent
        \<or> (\<exists>rs p e. renders s = rs @ [(p, Inl e)] \<and> list_all returned rs
              \<and> t = ErrorEvent (error_message P e))
        \<or> (\<exists>e. length (renders s) < length ps \<and> list_all returned (renders s)
              \<and> frame_prompt P (ps ! length (renders s)) = Inl e
              \<and> t = ErrorEvent (error_message P e)))
     \<and> filter is_frame (queue s) = frames_of (renders s)
     \<and> map Some (frames_of (renders s))
         = map (\<lambda>i. frame_for (renders s ! i)) (frame_indices 0 (renders s))
     \<and> frame_indices 0 (renders s)
         = filter (\<lambda>i. frame_for (renders s ! i) \<noteq> None) [0..<length (renders s)]
     \<and> sorted_wrt (<) (frame_indices 0 (renders s))
     \<and> length (filter is_frame (queue s)) \<le> length ps"
proof -
  let ?s1 = "\<lparr>world = w1, queue = [PosesEvent (str_or_undefined poses)], closed = False, renders = []\<rparr>"
  let ?s = "start P gc (FormFile f) w"
  obtain x s2 where run: "for_poses P gc buffer ps ?s1 = (x, s2)" by force
  let ?t = "case x of None \<Rightarrow> CompleteEvent | Some e \<Rightarrow> ErrorEvent (error_message P e)"
  from for_poses_run [OF run] obtain rs where rs:
    "renders s2 = rs" "queue s2 = [PosesEvent (str_or_undefined poses)] @ frames_of rs"
    "length rs \<le> length ps"
    "\<forall>i<length rs. frame_prompt P (ps ! i) = Inr (fst (rs ! i))"
    "call_in_turn gc buffer (map fst rs) w1 = (map snd rs, world s2)"
    "case x of
       None \<Rightarrow> length rs = length ps \<and> list_all returned rs
     | Some e \<Rightarrow>
         (\<exists>pre p. rs = pre @ [(p, Inl e)] \<and> list_all returned pre)
         \<or> (list_all returned rs \<and> length rs < length ps
             \<and> frame_prompt P (ps ! length rs) = Inl e)"
    by auto
  have s: "?s = close (enqueue ?t s2)"
    using start_array [OF assms(3,4,5) run] .
  have post: "POST P gc req w =
      Streams [(lit ''Content-Type'', lit ''application/json''),
               (lit ''Transfer-Encoding'', lit ''chunked'')] ?s"
    using assms(1,2) by (simp add: POST_def)
  have r: "renders ?s = rs" and wd: "world ?s = world s2"
    and q: "queue ?s = PosesEvent (str_or_undefined poses) # frames_of rs @ [?t]"
    using s rs(1,2) by (simp_all add: close_def enqueue_def)
  have "\<not> is_frame ?t" by (simp add: is_frame_def split: option.splits)
  then have fl: "filter is_frame (queue ?s) = frames_of rs"
    using q filter_frames_append [of "str_or_undefined poses" rs ?t] by simp
  have bound: "length (frames_of rs) \<le> length ps"
    using length_frames_of [of rs] rs(3) by simp
  have ending: "length rs = length ps \<and> list_all returned rs \<and> ?t = CompleteEvent
        \<or> (\<exists>pre p e. rs = pre @ [(p, Inl e)] \<and> list_all returned pre
              \<and> ?t = ErrorEvent (error_message P e))
        \<or> (\<exists>e. length rs < length ps \<and> list_all returned rs
              \<and> frame_prompt P (ps ! length rs) = Inl e
              \<and> ?t = ErrorEvent (error_message P e))"
  proof (cases x)
    case None
    with rs(6) show ?thesis by simp
  next
    case (Some e)
    with rs(6) consider
      (a) pre p where "rs = pre @ [(p, Inl e)]" "list_all returned pre"
      | (b) "list_all returned rs" "length rs < length ps"
        "frame_prompt P (ps ! length rs) = Inl e"
      by auto
    then show ?thesis
    proof cases
      case a
      with Some have "\<exists>pre p e. rs = pre @ [(p, Inl e)] \<and> list_all returned pre
              \<and> ?t = ErrorEvent (error_message P e)"
        by (simp only: option.case) blast
      then show ?thesis by (rule disjI1 [THEN disjI2])
    next
      case b
      with Some have "\<exists>e. length rs < length ps \<and> list_all returned rs
              \<and> frame_prompt P (ps ! length rs) = Inl e
              \<and> ?t = ErrorEvent (error_message P e)"
        by (simp only: option.case) blast
      then show ?thesis by (rule disjI2 [THEN disjI2])
    qed
  qed
  have idx: "frame_indices 0 rs = filter (\<lambda>i. frame_for (rs ! i) \<noteq> None) [0..<length rs]"
    using frame_indices_filter [of 0 rs] by simp
  have "queue ?s = PosesEvent (str_or_undefined poses) # frames_of (renders ?s) @ [?t]
     \<and> length (renders ?s) \<le> length ps
     \<and> (\<forall>i<length (renders ?s). frame_prompt P (ps ! i) = Inr (fst (renders ?s ! i)))
     \<and> call_in_turn gc buffer (map fst (renders ?s)) w1 = (map snd (renders ?s), world ?s)
     \<and> (length (renders ?s) = length ps \<and> list_all returned (renders ?s) \<and> ?t = CompleteEvent
        \<or> (\<exists>rs p e. renders ?s = rs @ [(p, Inl e)] \<and> list_all returned rs
              \<and> ?t = ErrorEvent (error_message P e))
        \<or> (\<exists>e. length (renders ?s) < length ps \<and> list_all returned (renders ?s)
              \<and> frame_prompt P (ps ! length (renders ?s)) = Inl e
              \<and> ?t = ErrorEvent (error_message P e)))
     \<and> filter is_frame (queue ?s) = frames_of (renders ?s)
     \<and> map Some (frames_of (renders ?s))
         = map (\<lambda>i. frame_for (renders ?s ! i)) (frame_indices 0 (renders ?s))
     \<and> frame_indices 0 (renders ?s)
         = filter (\<lambda>i. frame_for (renders ?s ! i) \<noteq> None) [0..<length (renders ?s)]
     \<and> sorted_wrt (<) (frame_indices 0 (renders ?s))
     \<and> length (filter is_frame (queue ?s)) \<le> length ps"
    unfolding r wd fl
    using q rs(3,4,5) ending frames_of_indices [of rs 0] idx frame_indices_sorted [of 0 rs] bound
    by (intro conjI) simp_all
  with post show ?thesis by blast
qed

text \<open>
  Witness of C3: three poses, whose renders return an image, a text and an image. The loop
  goes on after the text: three renders are made, the stream ends with \<open>complete\<close>, and the
  frames are those of the first and the third pose.
\<close>

theorem frames_follow_pose_order_witness:
  "generatePosesFromImageBuffer example_remote 0 [137, 80, 78, 71]
        (type \<lparr>type = lit ''image/png'', arrayBuffer = Inr [137, 80, 78, 71]\<rparr>) 12
     = (Inr (Some three_poses), 1)
   \<and> JSON_parse (case Some three_poses of None \<Rightarrow> lit ''[]'' | Some t \<Rightarrow> t) = Inr (JArr three_pose_values)
   \<and> (\<exists>h s t. POST example_platform example_remote example_request 0 = Streams h s
        \<and> queue s = PosesEvent (str_or_undefined (Some three_poses)) # frames_of (renders s) @ [t]
        \<and> length (renders s) \<le> length three_pose_values
        \<and> (\<forall>i<length (renders s).
              frame_prompt example_platform (three_pose_values ! i) = Inr (fst (renders s ! i)))
        \<and> call_in_turn example_remote [137, 80, 78, 71] (map fst (renders s)) 1
            = (map snd (renders s), world s)
        \<and> (length (renders s) = length three_pose_values \<and> list_all returned (renders s)
              \<and> t = CompleteEvent
           \<or> (\<exists>rs p e. renders s = rs @ [(p, Inl e)] \<and> list_all returned rs
                 \<and> t = ErrorEvent (error_message example_platform e))
           \<or> (\<exists>e. length (renders s) < length three_pose_values \<and> list_all returned (renders s)
                 \<and> frame_prompt example_platform (three_pose_values ! length (renders s)) = Inl e
                 \<and> t = ErrorEvent (error_message example_platform e)))
        \<and> filter is_frame (queue s) = frames_of (renders s)
        \<and> map Some (frames_of (renders s))
            = map (\<lambda>i. frame_for (renders s ! i)) (frame_indices 0 (renders s))
        \<and> frame_indices 0 (renders s)
            = filter (\<lambda>i. frame_for (renders s ! i) \<noteq> None) [0..<length (renders s)]
        \<and> sorted_wrt (<) (frame_indices 0 (renders s))
        \<and> length (filter is_frame (queue s)) \<le> length three_pose_values)
   \<and> length (renders (start example_platform example_remote
          (FormFile \<lparr>type = lit ''image/png'', arrayBuffer = Inr [137, 80, 78, 71]\<rparr>) 0)) = 3
   \<and> list_all returned (renders (start example_platform example_remote
          (FormFile \<lparr>type = lit ''image/png'', arrayBuffer = Inr [137, 80, 78, 71]\<rparr>) 0))
   \<and> last (queue (start example_platform example_remote
          (FormFile \<lparr>type = lit ''image/png'', arrayBuffer = Inr [137, 80, 78, 71]\<rparr>) 0)) = CompleteEvent
   \<and> frame_indices 0 (renders (start example_platform example_remote
          (FormFile \<lparr>type = lit ''image/png'', arrayBuffer = Inr [137, 80, 78, 71]\<rparr>) 0)) = [0, 2]"
proof -
  have 4: "generatePosesFromImageBuffer example_remote 0 [137, 80, 78, 71]
        (type \<lparr>type = lit ''image/png'', arrayBuffer = Inr [137, 80, 78, 71]\<rparr>) 12
      = (Inr (Some three_poses), 1)"
    unfolding example_remote_def by (rule planner_returns)
  have 5: "JSON_parse (case Some three_poses of None \<Rightarrow> lit ''[]'' | Some t \<Rightarrow> t) =
       Inr (JArr three_pose_values)"
    by (simp add: three_poses_parsed three_pose_values_def)
  have 6: "frame_indices 0 (renders (start example_platform example_remote
          (FormFile \<lparr>type = lit ''image/png'', arrayBuffer = Inr [137, 80, 78, 71]\<rparr>) 0)) = [0, 2]"
    by (simp add: example_run image_tagged_def own_def)
  have 7: "length (renders (start example_platform example_remote
          (FormFile \<lparr>type = lit ''image/png'', arrayBuffer = Inr [137, 80, 78, 71]\<rparr>) 0)) = 3"
    by (simp add: example_run)
  have 8: "list_all returned (renders (start example_platform example_remote
          (FormFile \<lparr>type = lit ''image/png'', arrayBuffer = Inr [137, 80, 78, 71]\<rparr>) 0))"
    by (simp add: example_run returned_def)
  have 9: "last (queue (start example_platform example_remote
          (FormFile \<lparr>type = lit ''image/png'', arrayBuffer = Inr [137, 80, 78, 71]\<rparr>) 0)) = CompleteEvent"
    by (simp add: example_run)
  show ?thesis
    by (intro conjI 4 5 6 7 8 9
        frames_follow_pose_order [OF example_request_form 4 5, of example_platform])
qed

section \<open>Lemmas about the fuel of JSON.parse\<close>

text \<open>
  Every lexer and every successful call of the descent consumes input, so the descent is as
  deep as twice the length of the text at most.
\<close>

lemma length_skip_ws: "length (skip_ws s) \<le> length s"
  by (simp add: skip_ws_def length_dropWhile_le)

lemma skip_ws_Cons_length: "skip_ws s = c # r \<Longrightarrow> length r < length s"
  using length_skip_ws [of s] by simp

lemma parse_chars_consumes: "parse_chars s = Some (t, r) \<Longrightarrow> length r < length s"
proof (induction s arbitrary: t rule: length_induct)
  case (1 s)
  show ?case
  proof (cases s)
    case Nil
    with 1(2) show ?thesis by simp
  next
    case (Cons c cs)
    consider "c = 34" | "c = 92" | "c \<noteq> 34" "c \<noteq> 92" "c < 32" | "c \<noteq> 34" "c \<noteq> 92" "\<not> c < 32"
      by blast
    then show ?thesis
    proof cases
      case 1
      with Cons \<open>parse_chars s = Some (t, r)\<close> show ?thesis by simp
    next
      case 2
      with Cons \<open>parse_chars s = Some (t, r)\<close>
      obtain e r0 where cs: "cs = e # r0" by (cases cs) auto
      show ?thesis
      proof (cases "e = 117")
        case True
        with 2 Cons cs \<open>parse_chars s = Some (t, r)\<close>
        obtain h1 h2 h3 h4 r' t' where "r0 = h1 # h2 # h3 # h4 # r'" "parse_chars r' = Some (t', r)"
          by (auto split: list.splits option.splits)
        then have "length r' < length s" "parse_chars r' = Some (t', r)"
          using Cons cs by simp_all
        with 1(1) have "length r < length r'" by blast
        with \<open>length r' < length s\<close> show ?thesis by simp
      next
        case False
        with 2 Cons cs \<open>parse_chars s = Some (t, r)\<close>
        obtain t' where "parse_chars r0 = Some (t', r)"
          by (auto split: option.splits)
        moreover have "length r0 < length s" using Cons cs by simp
        ultimately have "length r < length r0" using 1(1) by blast
        with \<open>length r0 < length s\<close> show ?thesis by simp
      qed
    next
      case 3
      with Cons \<open>parse_chars s = Some (t, r)\<close> show ?thesis by simp
    next
      case 4
      with Cons \<open>parse_chars s = Some (t, r)\<close>
      obtain t' where "parse_chars cs = Some (t', r)" by auto
      moreover have "length cs < length s" using Cons by simp
      ultimately have "length r < length cs" using 1(1) by blast
      with \<open>length cs < length s\<close> show ?thesis by simp
    qed
  qed
qed

lemma digits1_consumes: "digits1 s = Some (t, r) \<Longrightarrow> length r < length s"
proof -
  assume a: "digits1 s = Some (t, r)"
  then have "takeWhile is_digit s \<noteq> []" "r = dropWhile is_digit s"
    by (auto simp: digits1_def split: if_splits)
  moreover have "length (takeWhile is_digit s) + length (dropWhile is_digit s) = length s"
    by (metis length_append takeWhile_dropWhile_id)
  ultimately show ?thesis by (cases "takeWhile is_digit s") auto
qed

lemma number_int_consumes: "number_int s = Some (t, r) \<Longrightarrow> length r < length s"
  by (auto simp: number_int_def split: list.splits if_splits dest: digits1_consumes)

lemma number_frac_length: "number_frac s = Some (t, r) \<Longrightarrow> length r \<le> length s"
  by (auto simp: number_frac_def split: list.splits if_splits dest!: digits1_consumes)

lemma number_exp_length: "number_exp s = Some (t, r) \<Longrightarrow> length r \<le> length s"
  by (auto simp: number_exp_def split: list.splits if_splits dest!: digits1_consumes)

lemma parse_number_consumes:
  assumes "parse_number s = Some (t, r)"
  shows "length r < length s"
proof -
  from assms obtain sg s0 ip s1 fp s2 ep where
    s0: "(case s of [] \<Rightarrow> ([], s) | c # r \<Rightarrow> if c = 45 then ([c], r) else ([], s)) = (sg, s0)"
    and i: "number_int s0 = Some (ip, s1)" and f: "number_frac s1 = Some (fp, s2)"
    and e: "number_exp s2 = Some (ep, r)"
    by (auto simp: parse_number_def split: prod.splits option.splits)
  from s0 have "length s0 \<le> length s" by (auto split: list.splits if_splits)
  with number_int_consumes [OF i] number_frac_length [OF f] number_exp_length [OF e]
  show ?thesis by simp
qed

lemma skip_ws_lt: "skip_ws s = c # r \<Longrightarrow> length r' \<le> length r \<Longrightarrow> length r' < length s"
  using skip_ws_Cons_length [of s c r] by simp

lemma parse_value_consumes:
  "parse_value n s = Some (v, r) \<Longrightarrow> length r < length s"
  "parse_elements n s = Some (vs, r) \<Longrightarrow> length r < length s"
  "parse_members n acc s = Some (kvs, r) \<Longrightarrow> length r < length s"
proof (induction n s and n s and n acc s arbitrary: v r and vs r and kvs r
    rule: parse_value_parse_elements_parse_members.induct)
  case (1 s)
  then show ?case by simp
next
  case (2 n s)
  from 2(3) obtain c r0 where sk: "skip_ws s = c # r0"
    by (cases "skip_ws s") auto
  have l0: "length r0 < length s" using sk by (rule skip_ws_Cons_length)
  consider (obj) "c = 123" | (arr) "c \<noteq> 123" "c = 91" | (str) "c \<noteq> 123" "c \<noteq> 91" "c = 34"
    | (other) "c \<noteq> 123" "c \<noteq> 91" "c \<noteq> 34"
    by blast
  then show ?case
  proof cases
    case obj
    with 2(3) sk obtain d r' where sk2: "skip_ws r0 = d # r'"
      by (cases "skip_ws r0") auto
    have l1: "length r' < length r0" using sk2 by (rule skip_ws_Cons_length)
    show ?thesis
    proof (cases "d = 125")
      case True
      with 2(3) sk obj sk2 have "r = r'" by simp
      with l0 l1 show ?thesis by simp
    next
      case False
      with 2(3) sk obj sk2 obtain kvs where m: "parse_members n [] (d # r') = Some (kvs, r)"
        by auto
      from 2(1) [OF sk obj sk2 False m] l1 l0 show ?thesis by simp
    qed
  next
    case arr
    with 2(3) sk obtain d r' where sk2: "skip_ws r0 = d # r'"
      by (cases "skip_ws r0") auto
    have l1: "length r' < length r0" using sk2 by (rule skip_ws_Cons_length)
    show ?thesis
    proof (cases "d = 93")
      case True
      with 2(3) sk arr sk2 have "r = r'" by simp
      with l0 l1 show ?thesis by simp
    next
      case False
      with 2(3) sk arr sk2 obtain vs where m: "parse_elements n (d # r') = Some (vs, r)"
        by auto
      from 2(2) [OF sk arr sk2 False m] l1 l0 show ?thesis by simp
    qed
  next
    case str
    with 2(3) sk obtain t where "parse_chars r0 = Some (t, r)" by auto
    from parse_chars_consumes [OF this] l0 show ?thesis by simp
  next
    case other
    with 2(3) sk have "r = drop 4 (c # r0) \<or> r = drop 5 (c # r0)
        \<or> (\<exists>t. parse_number (c # r0) = Some (t, r))"
      by (auto split: if_splits)
    then have "length r \<le> length r0"
      by (auto dest!: parse_number_consumes)
    with l0 show ?thesis by simp
  qed
next
  case (3 s)
  then show ?case by simp
next
  case (4 n s)
  from 4(3) obtain v r0 where pv: "parse_value n s = Some (v, r0)"
    by (auto split: option.splits)
  from 4(1) [OF pv] have l0: "length r0 < length s" .
  from 4(3) pv obtain c r' where sk: "skip_ws r0 = c # r'"
    by (cases "skip_ws r0") auto
  have l1: "length r' < length r0" using sk by (rule skip_ws_Cons_length)
  show ?case
  proof (cases "c = 44")
    case True
    with 4(3) pv sk obtain vs' where e: "parse_elements n r' = Some (vs', r)" by auto
    from 4(2) [OF pv refl sk True e] l0 l1 show ?thesis by simp
  next
    case False
    with 4(3) pv sk have "r = r'" by (auto split: if_splits)
    with l0 l1 show ?thesis by simp
  qed
next
  case (5 acc s)
  then show ?case by simp
next
  case (6 n acc s)
  from 6(3) obtain c r0 where sk: "skip_ws s = c # r0"
    by (cases "skip_ws s") auto
  have l0: "length r0 < length s" using sk by (rule skip_ws_Cons_length)
  from 6(3) sk have c: "\<not> c \<noteq> 34" by (auto split: if_splits)
  from 6(3) sk c obtain k r1 where pc: "parse_chars r0 = Some (k, r1)"
    by (auto split: option.splits)
  have l1: "length r1 < length r0" using pc by (rule parse_chars_consumes)
  from 6(3) sk c pc obtain c1 r2 where sk1: "skip_ws r1 = c1 # r2"
    by (cases "skip_ws r1") auto
  have l2: "length r2 < length r1" using sk1 by (rule skip_ws_Cons_length)
  from 6(3) sk c pc sk1 have c1: "\<not> c1 \<noteq> 58" by (auto split: if_splits)
  from 6(3) sk c pc sk1 c1 obtain v r3 where pv: "parse_value n r2 = Some (v, r3)"
    by (auto split: option.splits)
  from 6(1) [OF sk c pc refl sk1 c1 pv] have l3: "length r3 < length r2" .
  from 6(3) sk c pc sk1 c1 pv obtain c3 r4 where sk3: "skip_ws r3 = c3 # r4"
    by (cases "skip_ws r3") auto
  have l4: "length r4 < length r3" using sk3 by (rule skip_ws_Cons_length)
  show ?case
  proof (cases "c3 = 44")
    case True
    with 6(3) sk c pc sk1 c1 pv sk3 have m: "parse_members n (obj_set k v acc) r4 = Some (kvs, r)"
      by simp
    from 6(2) [OF sk c pc refl sk1 c1 pv refl sk3 True m] l0 l1 l2 l3 l4 show ?thesis by simp
  next
    case False
    with 6(3) sk c pc sk1 c1 pv sk3 have "r = r4" by (auto split: if_splits)
    with l0 l1 l2 l3 l4 show ?thesis by simp
  qed
qed

text \<open>
  From the fuel \<open>JSON_parse\<close> gives, one more unit of fuel changes no result: a \<open>None\<close> of
  \<open>JSON_parse\<close> is a text that is no JSON, never a descent cut short.
\<close>

lemma fuel_stable:
  "2 * length s + 2 \<le> n \<Longrightarrow> parse_value (Suc n) s = parse_value n s"
  "2 * length s + 3 \<le> n \<Longrightarrow> parse_elements (Suc n) s = parse_elements n s"
  "2 * length s + 1 \<le> n \<Longrightarrow> parse_members (Suc n) acc s = parse_members n acc s"
proof (induction n s and n s and n acc s
    rule: parse_value_parse_elements_parse_members.induct)
  case (1 s)
  then show ?case by simp
next
  case (2 n s)
  show ?case
  proof (cases "skip_ws s")
    case Nil
    then show ?thesis by simp
  next
    case sk: (Cons c r0)
    have l0: "length r0 < length s" using sk by (rule skip_ws_Cons_length)
    consider (obj) "c = 123" | (arr) "c \<noteq> 123" "c = 91" | (other) "c \<noteq> 123" "c \<noteq> 91"
      by blast
    then show ?thesis
    proof cases
      case obj
      show ?thesis
      proof (cases "skip_ws r0")
        case Nil
        with sk obj show ?thesis by simp
      next
        case sk2: (Cons d r')
        have l1: "length r' < length r0" using sk2 by (rule skip_ws_Cons_length)
        show ?thesis
        proof (cases "d = 125")
          case True
          with sk obj sk2 show ?thesis by simp
        next
          case False
          from l0 l1 2(3) have "2 * length (d # r') + 1 \<le> n" by simp
          from 2(1) [OF sk obj sk2 False this]
          have "parse_members (Suc n) [] (d # r') = parse_members n [] (d # r')" .
          with sk obj sk2 False show ?thesis by simp
        qed
      qed
    next
      case arr
      show ?thesis
      proof (cases "skip_ws r0")
        case Nil
        with sk arr show ?thesis by simp
      next
        case sk2: (Cons d r')
        have l1: "length r' < length r0" using sk2 by (rule skip_ws_Cons_length)
        show ?thesis
        proof (cases "d = 93")
          case True
          with sk arr sk2 show ?thesis by simp
        next
          case False
          from l0 l1 2(3) have "2 * length (d # r') + 3 \<le> n" by simp
          from 2(2) [OF sk arr sk2 False this]
          have "parse_elements (Suc n) (d # r') = parse_elements n (d # r')" .
          with sk arr sk2 False show ?thesis by simp
        qed
      qed
    next
      case other
      with sk show ?thesis by simp
    qed
  qed
next
  case (3 s)
  then show ?case by simp
next
  case (4 n s)
  from 4(3) have "2 * length s + 2 \<le> n" by simp
  from 4(1) [OF this] have pv: "parse_value (Suc n) s = parse_value n s" .
  show ?case
  proof (cases "parse_value n s")
    case None
    with pv show ?thesis by simp
  next
    case (Some vr)
    then obtain v r0 where v: "parse_value n s = Some (v, r0)" by (cases vr) auto
    from parse_value_consumes(1) [OF v] have l0: "length r0 < length s" .
    show ?thesis
    proof (cases "skip_ws r0")
      case Nil
      with pv v show ?thesis by simp
    next
      case sk: (Cons c r')
      have l1: "length r' < length r0" using sk by (rule skip_ws_Cons_length)
      show ?thesis
      proof (cases "c = 44")
        case True
        from l0 l1 4(3) have "2 * length r' + 3 \<le> n" by simp
        from 4(2) [OF v refl sk True this]
        have "parse_elements (Suc n) r' = parse_elements n r'" .
        with pv v sk True show ?thesis by simp
      next
        case False
        with pv v sk show ?thesis by simp
      qed
    qed
  qed
next
  case (5 acc s)
  then show ?case by simp
next
  case (6 n acc s)
  show ?case
  proof (cases "skip_ws s")
    case Nil
    then show ?thesis by simp
  next
    case sk: (Cons c r0)
    have l0: "length r0 < length s" using sk by (rule skip_ws_Cons_length)
    show ?thesis
    proof (cases "c \<noteq> 34")
      case True
      with sk show ?thesis by simp
    next
      case c: False
      show ?thesis
      proof (cases "parse_chars r0")
        case None
        with sk c show ?thesis by simp
      next
        case (Some kr)
        then obtain k r1 where pc: "parse_chars r0 = Some (k, r1)" by (cases kr) auto
        have l1: "length r1 < length r0" using pc by (rule parse_chars_consumes)
        show ?thesis
        proof (cases "skip_ws r1")
          case Nil
          with sk c pc show ?thesis by simp
        next
          case sk1: (Cons c1 r2)
          have l2: "length r2 < length r1" using sk1 by (rule skip_ws_Cons_length)
          show ?thesis
          proof (cases "c1 \<noteq> 58")
            case True
            with sk c pc sk1 show ?thesis by simp
          next
            case c1: False
            from l0 l1 l2 6(3) have "2 * length r2 + 2 \<le> n" by simp
            from 6(1) [OF sk c pc refl sk1 c1 this]
            have pv: "parse_value (Suc n) r2 = parse_value n r2" .
            show ?thesis
            proof (cases "parse_value n r2")
              case None
              with sk c pc sk1 c1 pv show ?thesis by simp
            next
              case (Some vr)
              then obtain v r3 where v: "parse_value n r2 = Some (v, r3)" by (cases vr) auto
              from parse_value_consumes(1) [OF v] have l3: "length r3 < length r2" .
              show ?thesis
              proof (cases "skip_ws r3")
                case Nil
                with sk c pc sk1 c1 pv v show ?thesis by simp
              next
                case sk3: (Cons c3 r4)
                have l4: "length r4 < length r3" using sk3 by (rule skip_ws_Cons_length)
                show ?thesis
                proof (cases "c3 = 44")
                  case True
                  from l0 l1 l2 l3 l4 6(3) have "2 * length r4 + 1 \<le> n" by simp
                  from 6(2) [OF sk c pc refl sk1 c1 v refl sk3 True this]
                  have "parse_members (Suc n) (obj_set k v acc) r4
                        = parse_members n (obj_set k v acc) r4" .
                  with sk c pc sk1 c1 pv v sk3 True show ?thesis by simp
                next
                  case False
                  with sk c pc sk1 c1 pv v sk3 show ?thesis by simp
                qed
              qed
            qed
          qed
        qed
      qed
    qed
  qed
qed

text \<open>More fuel than \<open>JSON_parse\<close> gives changes nothing.\<close>

lemma fuel_enough:
  "parse_value (2 * length s + 2 + k) s = parse_value (2 * length s + 2) s"
proof (induction k)
  case 0
  show ?case by simp
next
  case (Suc k)
  have "parse_value (Suc (2 * length s + 2 + k)) s = parse_value (2 * length s + 2 + k) s"
    by (rule fuel_stable(1)) simp
  with Suc show ?case by simp
qed


section \<open>Lemmas about JSON texts\<close>

text \<open>\<open>JSON.parse\<close> reads back what \<open>JSON.stringify\<close> wrote for the events of the route.\<close>

lemma hex_value_hex_digit: "d < 16 \<Longrightarrow> hex_value (hex_digit d) = Some d"
  by (auto simp: hex_value_def hex_digit_def)

lemma hex_arith:
  assumes "(c::nat) < 65536"
  shows "((c div 4096 mod 16 * 16 + c div 256 mod 16) * 16 + c div 16 mod 16) * 16 + c mod 16 = c"
proof -
  define x where "x = c div 16"
  define y where "y = x div 16"
  define z where "z = y div 16"
  have y: "c div 256 = y" unfolding y_def x_def by (simp add: div_mult2_eq [symmetric])
  have z: "c div 4096 = z" unfolding z_def y_def x_def by (simp add: div_mult2_eq [symmetric])
  have "z < 16" using assms z by (simp add: less_mult_imp_div_less flip: z)
  then have zm: "z mod 16 = z" by simp
  have "(z * 16 + y mod 16) = y" unfolding z_def by simp
  moreover have "y * 16 + x mod 16 = x" unfolding y_def by simp
  moreover have "x * 16 + c mod 16 = c" unfolding x_def by simp
  ultimately show ?thesis using y z zm by (simp add: x_def [symmetric])
qed

lemma hex4_unicode_escape:
  assumes "c < 65536"
  shows "hex4 (hex_digit (c div 4096 mod 16)) (hex_digit (c div 256 mod 16))
           (hex_digit (c div 16 mod 16)) (hex_digit (c mod 16)) = Some c"
proof -
  have "hex_value (hex_digit (c div 4096 mod 16)) = Some (c div 4096 mod 16)"
    "hex_value (hex_digit (c div 256 mod 16)) = Some (c div 256 mod 16)"
    "hex_value (hex_digit (c div 16 mod 16)) = Some (c div 16 mod 16)"
    "hex_value (hex_digit (c mod 16)) = Some (c mod 16)"
    by (rule hex_value_hex_digit, simp)+
  then show ?thesis
    unfolding hex4_def by (simp only: prod.case option.case hex_arith [OF assms])
qed

lemma parse_chars_plain:
  assumes "32 \<le> c" and "c \<noteq> 34" and "c \<noteq> 92"
  shows "parse_chars (c # t) = map_option (\<lambda>(u, rest). (c # u, rest)) (parse_chars t)"
  using assms by simp

lemma parse_chars_quote_unit:
  "parse_chars (quote_unit c @ t) = map_option (\<lambda>(u, rest). (c # u, rest)) (parse_chars t)"
proof -
  consider "c = 8" | "c = 9" | "c = 10" | "c = 12" | "c = 13" | "c = 34" | "c = 92"
    | "c \<notin> {8, 9, 10, 12, 13, 34, 92}" "c < 32 \<or> is_lead c \<or> is_trail c"
    | "c \<notin> {8, 9, 10, 12, 13, 34, 92}" "\<not> (c < 32 \<or> is_lead c \<or> is_trail c)"
    by blast
  then show ?thesis
  proof cases
    case 8
    then have "c < 65536" by (auto simp: is_lead_def is_trail_def)
    then have e: "hex4 (hex_digit (c div 4096 mod 16)) (hex_digit (c div 256 mod 16))
           (hex_digit (c div 16 mod 16)) (hex_digit (c mod 16)) = Some c"
      by (rule hex4_unicode_escape)
    from 8 have "quote_unit c = unicode_escape c" by (simp add: quote_unit_def)
    then show ?thesis by (simp add: unicode_escape_def e)
  next
    case 9
    then show ?thesis by (simp add: quote_unit_def)
  qed (simp_all add: quote_unit_def unescape_def)
qed

lemma parse_chars_quote_units:
  "parse_chars (quote_units s @ 34 # r) = Some (s, r)"
proof (induction s rule: quote_units.induct)
  case 1
  show ?case by simp
next
  case (2 c)
  show ?case by (simp add: parse_chars_quote_unit del: parse_chars.simps) simp
next
  case (3 c d cs)
  show ?case
  proof (cases "is_lead c \<and> is_trail d")
    case True
    then have c: "32 \<le> c" "c \<noteq> 34" "c \<noteq> 92" and d: "32 \<le> d" "d \<noteq> 34" "d \<noteq> 92"
      by (auto simp: is_lead_def is_trail_def)
    from True have "quote_units (c # d # cs) @ 34 # r = c # d # (quote_units cs @ 34 # r)"
      by simp
    with 3(1) [OF True] parse_chars_plain [OF c] parse_chars_plain [OF d] show ?thesis
      by (simp del: parse_chars.simps)
  next
    case False
    then have "quote_units (c # d # cs) @ 34 # r = quote_unit c @ (quote_units (d # cs) @ 34 # r)"
      by (simp only: quote_units.simps if_False append_assoc)
    with 3(2) [OF False] show ?thesis
      by (simp add: parse_chars_quote_unit del: parse_chars.simps quote_units.simps)
  qed
qed

lemma newline_free_quote_unit: "10 \<notin> set (quote_unit c)"
  by (auto simp: quote_unit_def unicode_escape_def hex_digit_def)

lemma newline_free_quote_units: "10 \<notin> set (quote_units s)"
  by (induction s rule: quote_units.induct)
    (auto simp: newline_free_quote_unit is_lead_def is_trail_def)

lemma newline_free_quote: "10 \<notin> set (quote s)"
  by (simp add: quote_def newline_free_quote_units)

lemma skip_ws_Cons: "\<not> is_json_ws c \<Longrightarrow> skip_ws (c # r) = c # r"
  by (simp add: skip_ws_def)

lemma not_ws [simp]: "\<not> is_json_ws 34" "\<not> is_json_ws 44" "\<not> is_json_ws 58"
  "\<not> is_json_ws 123" "\<not> is_json_ws 125"
  by (simp_all add: is_json_ws_def)

lemma quote_Cons: "quote s @ r = 34 # (quote_units s @ 34 # r)"
  by (simp add: quote_def)

lemma parse_value_string:
  "parse_value (Suc n) (quote s @ r) = Some (JStr s, r)"
  by (simp add: quote_Cons skip_ws_Cons parse_chars_quote_units del: parse_chars.simps)

lemma parse_value_object:
  "parse_value (Suc n) (123 # quote k @ r) =
     map_option (\<lambda>(kvs, rest). (JObj kvs, rest)) (parse_members n [] (quote k @ r))"
  by (simp add: quote_Cons skip_ws_Cons del: parse_chars.simps)

lemma parse_members_more:
  assumes "parse_value n (vt @ 44 # r) = Some (v, 44 # r)"
  shows "parse_members (Suc n) acc (quote k @ 58 # vt @ 44 # r) = parse_members n (obj_set k v acc) r"
  using assms
  by (simp add: quote_Cons skip_ws_Cons parse_chars_quote_units del: parse_chars.simps)

lemma parse_members_last:
  assumes "parse_value n (vt @ 125 # r) = Some (v, 125 # r)"
  shows "parse_members (Suc n) acc (quote k @ 58 # vt @ 125 # r) = Some (obj_set k v acc, r)"
  using assms
  by (simp add: quote_Cons skip_ws_Cons parse_chars_quote_units del: parse_chars.simps)

lemma parse_members_more_string:
  "parse_members (Suc (Suc n)) acc (quote k @ 58 # quote s @ 44 # r)
     = parse_members (Suc n) (obj_set k (JStr s) acc) r"
  by (rule parse_members_more) (rule parse_value_string)

lemma parse_members_last_string:
  "parse_members (Suc (Suc n)) acc (quote k @ 58 # quote s @ 125 # r)
     = Some (obj_set k (JStr s) acc, r)"
  by (rule parse_members_last) (rule parse_value_string)

lemma payload_poses:
  "payload P (PosesEvent (JStr s)) =
     123 # quote (lit ''type'') @ 58 # quote (lit ''poses'') @ 44 # quote (lit ''data'') @ 58 # quote s @ [125]"
  "payload P (PosesEvent JUndefined) = 123 # quote (lit ''type'') @ 58 # quote (lit ''poses'') @ [125]"
  by (simp_all add: payload_def stringify_plus_def event_obj_def)

lemma payload_complete:
  "payload P CompleteEvent =
     123 # quote (lit ''type'') @ 58 # quote (lit ''complete'') @ 44 # quote (lit ''data'') @ 58
       # quote (lit ''Processing finished'') @ [125]"
  by (simp add: payload_def stringify_plus_def event_obj_def)

lemma payload_error:
  "payload P (ErrorEvent m) =
     123 # quote (lit ''type'') @ 58 # quote (lit ''error'') @ 44 # quote (lit ''data'') @ 58 # quote m @ [125]"
  by (simp add: payload_def stringify_plus_def event_obj_def)

lemma payload_frame:
  "payload P (FrameEvent b c) =
     123 # quote (lit ''type'') @ 58 # quote (lit ''nanobanana'') @ 44 # quote (lit ''data'') @ 58
       # (case JSON_stringify P (JObj [(lit ''type'', JStr (lit ''image'')),
                                       (lit ''base64ImageData'', b), (lit ''contentType'', c)]) of
            None \<Rightarrow> lit ''undefined'' | Some t \<Rightarrow> t) @ [125]"
  by (simp add: payload_def stringify_plus_def event_obj_def)

lemma frame_data_text:
  "JSON_stringify P (JObj [(lit ''type'', JStr (lit ''image'')),
                           (lit ''base64ImageData'', JStr b), (lit ''contentType'', JStr c)])
   = Some (123 # quote (lit ''type'') @ 58 # quote (lit ''image'') @ 44
            # quote (lit ''base64ImageData'') @ 58 # quote b @ 44
            # quote (lit ''contentType'') @ 58 # quote c @ [125])"
  "JSON_stringify P (JObj [(lit ''type'', JStr (lit ''image'')),
                           (lit ''base64ImageData'', JStr b), (lit ''contentType'', JUndefined)])
   = Some (123 # quote (lit ''type'') @ 58 # quote (lit ''image'') @ 44
            # quote (lit ''base64ImageData'') @ 58 # quote b @ [125])"
  "JSON_stringify P (JObj [(lit ''type'', JStr (lit ''image'')),
                           (lit ''base64ImageData'', JUndefined), (lit ''contentType'', JStr c)])
   = Some (123 # quote (lit ''type'') @ 58 # quote (lit ''image'') @ 44
            # quote (lit ''contentType'') @ 58 # quote c @ [125])"
  "JSON_stringify P (JObj [(lit ''type'', JStr (lit ''image'')),
                           (lit ''base64ImageData'', JUndefined), (lit ''contentType'', JUndefined)])
   = Some (123 # quote (lit ''type'') @ 58 # quote (lit ''image'') @ [125])"
  by simp_all

lemmas parse_steps = parse_value_object parse_value_string parse_members_more_string
  parse_members_last_string

lemma parse_poses:
  "parse_value (Suc (Suc (Suc (Suc n)))) (payload P (PosesEvent (JStr s)) @ r)
     = Some (received (PosesEvent (JStr s)), r)"
  "parse_value (Suc (Suc (Suc (Suc n)))) (payload P (PosesEvent JUndefined) @ r)
     = Some (received (PosesEvent JUndefined), r)"
  by (simp_all add: payload_poses parse_steps received_def defined_members_def
      del: parse_value.simps parse_members.simps)

lemma parse_complete:
  "parse_value (Suc (Suc (Suc (Suc n)))) (payload P CompleteEvent @ r) = Some (received CompleteEvent, r)"
  by (simp add: payload_complete parse_steps received_def event_obj_def
      del: parse_value.simps parse_members.simps)

lemma parse_error:
  "parse_value (Suc (Suc (Suc (Suc n)))) (payload P (ErrorEvent m) @ r) = Some (received (ErrorEvent m), r)"
  by (simp add: payload_error parse_steps received_def event_obj_def
      del: parse_value.simps parse_members.simps)

lemma parse_frame_data:
  assumes "str_or_undef b" and "str_or_undef c"
  shows "parse_value (Suc (Suc (Suc (Suc (Suc n)))))
           ((case JSON_stringify P (JObj [(lit ''type'', JStr (lit ''image'')),
                                       (lit ''base64ImageData'', b), (lit ''contentType'', c)]) of
            None \<Rightarrow> lit ''undefined'' | Some t \<Rightarrow> t) @ r)
         = Some (JObj (defined_members [(lit ''type'', JStr (lit ''image'')),
                                       (lit ''base64ImageData'', b), (lit ''contentType'', c)]), r)"
proof -
  from assms consider bs cs where "b = JStr bs" "c = JStr cs"
    | bs where "b = JStr bs" "c = JUndefined"
    | cs where "b = JUndefined" "c = JStr cs"
    | "b = JUndefined" "c = JUndefined"
    by (auto simp: str_or_undef_def split: jsval.splits)
  then show ?thesis
    by cases
      (simp_all add: parse_steps defined_members_def
        del: parse_value.simps parse_members.simps)
qed

lemma parse_frame:
  assumes "str_or_undef b" and "str_or_undef c"
  shows "parse_value (Suc (Suc (Suc (Suc (Suc (Suc (Suc (Suc n))))))))
           (payload P (FrameEvent b c) @ r) = Some (received (FrameEvent b c), r)"
proof -
  let ?d = "case JSON_stringify P (JObj [(lit ''type'', JStr (lit ''image'')),
                                       (lit ''base64ImageData'', b), (lit ''contentType'', c)]) of
            None \<Rightarrow> lit ''undefined'' | Some t \<Rightarrow> t"
  have "parse_members (Suc (Suc (Suc (Suc (Suc (Suc n))))))
          [(lit ''type'', JStr (lit ''nanobanana''))] (quote (lit ''data'') @ 58 # ?d @ 125 # r)
        = Some (obj_set (lit ''data'')
                  (JObj (defined_members [(lit ''type'', JStr (lit ''image'')),
                                       (lit ''base64ImageData'', b), (lit ''contentType'', c)]))
                  [(lit ''type'', JStr (lit ''nanobanana''))], r)"
    by (rule parse_members_last) (rule parse_frame_data [OF assms])
  then show ?thesis
    by (simp add: payload_frame parse_steps received_def
        del: parse_value.simps parse_members.simps JSON_stringify.simps)
qed

lemma enough_fuel:
  assumes "8 \<le> n"
  shows "\<exists>m. n = Suc (Suc (Suc (Suc (Suc (Suc (Suc (Suc m)))))))"
proof -
  from assms have "n = Suc (Suc (Suc (Suc (Suc (Suc (Suc (Suc (n - 8))))))))" by arith
  then show ?thesis ..
qed

lemma parse_payload:
  assumes "wire_event e" and "8 \<le> n"
  shows "parse_value n (payload P e @ r) = Some (received e, r)"
proof -
  from enough_fuel [OF assms(2)] obtain m
    where n: "n = Suc (Suc (Suc (Suc (Suc (Suc (Suc (Suc m)))))))" ..
  show ?thesis
  proof (cases e)
    case (PosesEvent d)
    with assms(1) have "(\<exists>s. d = JStr s) \<or> d = JUndefined"
      by (auto simp: wire_event_def str_or_undef_def split: jsval.splits)
    with PosesEvent show ?thesis unfolding n by (auto simp only: parse_poses)
  next
    case (FrameEvent b c)
    with assms(1) have "str_or_undef b" "str_or_undef c" by (simp_all add: wire_event_def)
    with FrameEvent show ?thesis unfolding n by (simp only: parse_frame)
  next
    case CompleteEvent
    then show ?thesis unfolding n by (simp only: parse_complete)
  next
    case (ErrorEvent m)
    then show ?thesis unfolding n by (simp only: parse_error)
  qed
qed

lemma payload_starts: "\<exists>t. payload P e = 123 # 34 # 116 # t"
  by (cases e) (simp_all add: payload_def stringify_plus_def event_obj_def quote_def lit_def
      quote_unit_def is_lead_def is_trail_def split: option.splits)

lemma JSON_parse_payload:
  assumes "wire_event e"
  shows "JSON_parse (payload P e) = Inr (received e)"
proof -
  from payload_starts obtain t where "payload P e = 123 # 34 # 116 # t" by blast
  then have "8 \<le> 2 * length (payload P e) + 2" by simp
  from parse_payload [OF assms this, of P "[]"] show ?thesis
    by (simp add: JSON_parse_def skip_ws_def)
qed

section \<open>Lemmas about the separator and the read loop\<close>

lemma CHUNK_END_Cons: "CHUNK_END = 10 # lit ''---CHUNK_END---'' @ [10]"
  by (simp add: CHUNK_END_def lit_def)

lemma CHUNK_END_not_Nil: "CHUNK_END \<noteq> []"
  by (simp add: CHUNK_END_Cons)

lemma encode_payload: "encode P e = payload P e @ CHUNK_END"
  by (simp add: encode_def payload_def stringify_plus_def)

lemma payload_braces: "\<exists>t. payload P e = 123 # t @ [125]"
  by (cases e) (simp_all add: payload_def stringify_plus_def event_obj_def)

lemma newline_free_frame_data:
  assumes "str_or_undef b" and "str_or_undef c"
  shows "10 \<notin> set (case JSON_stringify P (JObj [(lit ''type'', JStr (lit ''image'')),
                                       (lit ''base64ImageData'', b), (lit ''contentType'', c)]) of
            None \<Rightarrow> lit ''undefined'' | Some t \<Rightarrow> t)"
proof -
  from assms consider bs cs where "b = JStr bs" "c = JStr cs"
    | bs where "b = JStr bs" "c = JUndefined"
    | cs where "b = JUndefined" "c = JStr cs"
    | "b = JUndefined" "c = JUndefined"
    by (auto simp: str_or_undef_def split: jsval.splits)
  then show ?thesis
    by cases (simp_all add: newline_free_quote)
qed

lemma newline_free_payload:
  assumes "wire_event e"
  shows "10 \<notin> set (payload P e)"
proof (cases e)
  case (PosesEvent d)
  with assms have "(\<exists>s. d = JStr s) \<or> d = JUndefined"
    by (auto simp: wire_event_def str_or_undef_def split: jsval.splits)
  with PosesEvent show ?thesis by (auto simp: payload_poses newline_free_quote)
next
  case (FrameEvent b c)
  with assms have "str_or_undef b" "str_or_undef c" by (simp_all add: wire_event_def)
  from newline_free_frame_data [OF this, of P] FrameEvent show ?thesis
    by (simp add: payload_frame newline_free_quote del: JSON_stringify.simps)
next
  case CompleteEvent
  then show ?thesis by (simp add: payload_complete newline_free_quote)
next
  case (ErrorEvent m)
  then show ?thesis by (simp add: payload_error newline_free_quote)
qed

lemma starts_with_append: "starts_with p (p @ r)"
  by (simp add: starts_with_def)

lemma starts_with_length:
  assumes "starts_with p s"
  shows "length p \<le> length s"
proof -
  from assms have "length (take (length p) s) = length p" by (simp only: starts_with_def)
  then show ?thesis by simp
qed

lemma find_sep_Some:
  "find_sep sep s = Some (a, b) \<Longrightarrow> s = a @ sep @ b"
proof (induction s arbitrary: a)
  case Nil
  then show ?case by (simp split: if_splits)
next
  case (Cons c cs)
  show ?case
  proof (cases "starts_with sep (c # cs)")
    case True
    with Cons.prems have ab: "a = []" "b = drop (length sep) (c # cs)" by simp_all
    from True have t: "take (length sep) (c # cs) = sep" by (simp only: starts_with_def)
    have "take (length sep) (c # cs) @ drop (length sep) (c # cs) = c # cs"
      by (rule append_take_drop_id)
    then show ?thesis by (simp only: t ab append_Nil)
  next
    case False
    with Cons.prems obtain a' where "find_sep sep cs = Some (a', b)" "a = c # a'"
      by auto
    with Cons.IH show ?thesis by simp
  qed
qed

lemma starts_with_append_iff:
  "length p \<le> length s \<Longrightarrow> starts_with p (s @ t) \<longleftrightarrow> starts_with p s"
  by (simp add: starts_with_def)

lemma find_sep_append:
  assumes "find_sep sep s = Some (a, b)" and "sep \<noteq> []"
  shows "find_sep sep (s @ t) = Some (a, b @ t)"
  using assms(1)
proof (induction s arbitrary: a)
  case Nil
  with assms(2) show ?case by simp
next
  case (Cons c cs)
  from find_sep_Some [OF Cons.prems] have len: "length sep \<le> length (c # cs)" by simp
  have sw: "starts_with sep ((c # cs) @ t) \<longleftrightarrow> starts_with sep (c # cs)"
    using len by (rule starts_with_append_iff)
  show ?case
  proof (cases "starts_with sep (c # cs)")
    case True
    have d: "drop (length sep) ((c # cs) @ t) = drop (length sep) (c # cs) @ t"
      using len by (simp only: drop_append) simp
    from True sw have "find_sep sep ((c # cs) @ t) = Some ([], drop (length sep) ((c # cs) @ t))"
      by (simp del: drop_append)
    moreover from Cons.prems True have "a = []" "b = drop (length sep) (c # cs)" by simp_all
    ultimately show ?thesis using d by simp
  next
    case False
    with Cons.prems obtain a' where a': "find_sep sep cs = Some (a', b)" "a = c # a'"
      by auto
    from False sw have "\<not> starts_with sep (c # (cs @ t))" by simp
    with Cons.IH [OF a'(1)] a'(2) show ?thesis by simp
  qed
qed

lemma find_sep_prefix: "sep \<noteq> [] \<Longrightarrow> find_sep sep (sep @ r) = Some ([], r)"
  by (cases sep) (simp_all add: starts_with_def)

lemma find_sep_newline_free:
  assumes "10 \<notin> set p"
  shows "find_sep CHUNK_END (p @ CHUNK_END @ r) = Some (p, r)"
  using assms
proof (induction p)
  case Nil
  show ?case by (simp add: find_sep_prefix CHUNK_END_not_Nil)
next
  case (Cons c p)
  then have "c \<noteq> 10" by auto
  then have "\<not> starts_with CHUNK_END (c # p @ CHUNK_END @ r)"
    by (simp add: starts_with_def CHUNK_END_Cons)
  with Cons show ?case by simp
qed

lemma occurs_subset: "occurs t s \<Longrightarrow> set t \<subseteq> set s"
proof (induction s)
  case Nil
  then show ?case by simp
next
  case (Cons c cs)
  then consider "starts_with t (c # cs)" | "occurs t cs" by auto
  then show ?case
  proof cases
    case 1
    then have eq: "take (length t) (c # cs) = t" by (simp only: starts_with_def)
    have "set (take (length t) (c # cs)) \<subseteq> set (c # cs)" by (rule set_take_subset)
    then show ?thesis by (simp only: eq)
  next
    case 2
    with Cons.IH show ?thesis by auto
  qed
qed

lemma split_on_step:
  "sep \<noteq> [] \<Longrightarrow> split_on sep s =
     (case find_sep sep s of None \<Rightarrow> [s] | Some (a, b) \<Rightarrow> a # split_on sep b)"
  by (subst split_on.simps) simp

lemma split_on_not_Nil: "sep \<noteq> [] \<Longrightarrow> split_on sep s \<noteq> []"
  by (subst split_on_step) (auto split: option.splits)

lemma split_on_last_free:
  assumes "sep \<noteq> []"
  shows "find_sep sep (last (split_on sep s)) = None"
proof (induction "length s" arbitrary: s rule: less_induct)
  case less
  show ?case
  proof (cases "find_sep sep s")
    case None
    with assms show ?thesis by (simp add: split_on_step)
  next
    case (Some ab)
    then obtain a b where ab: "find_sep sep s = Some (a, b)" by (cases ab) auto
    from find_sep_shorter [OF ab assms] less have "find_sep sep (last (split_on sep b)) = None"
      by simp
    moreover from ab assms have "split_on sep s = a # split_on sep b"
      by (simp add: split_on_step [of sep s])
    ultimately show ?thesis using split_on_not_Nil [OF assms, of b] by simp
  qed
qed

lemma split_on_append:
  assumes "sep \<noteq> []"
  shows "split_on sep (s @ t) =
           butlast (split_on sep s) @ split_on sep (last (split_on sep s) @ t)"
proof (induction "length s" arbitrary: s rule: less_induct)
  case less
  show ?case
  proof (cases "find_sep sep s")
    case None
    with assms show ?thesis by (simp add: split_on_step [of sep s])
  next
    case (Some ab)
    then obtain a b where ab: "find_sep sep s = Some (a, b)" by (cases ab) auto
    from find_sep_shorter [OF ab assms] less
    have IH: "split_on sep (b @ t) =
        butlast (split_on sep b) @ split_on sep (last (split_on sep b) @ t)"
      by simp
    from find_sep_append [OF ab assms] assms
    have "split_on sep (s @ t) = a # split_on sep (b @ t)"
      by (simp add: split_on_step [of sep "s @ t"])
    moreover from ab assms have "split_on sep s = a # split_on sep b"
      by (simp add: split_on_step [of sep s])
    ultimately show ?thesis using IH split_on_not_Nil [OF assms, of b] by simp
  qed
qed

lemma split_wire:
  assumes "\<forall>e \<in> set evs. wire_event e"
  shows "split_on CHUNK_END (concat (wire P evs) @ r) = map (payload P) evs @ split_on CHUNK_END r"
  using assms
proof (induction evs)
  case Nil
  show ?case by (simp add: wire_def)
next
  case (Cons e evs)
  then have "10 \<notin> set (payload P e)" by (simp add: newline_free_payload)
  from find_sep_newline_free [OF this, of "concat (wire P evs) @ r"]
  have f: "find_sep CHUNK_END (concat (wire P (e # evs)) @ r)
        = Some (payload P e, concat (wire P evs) @ r)"
    by (simp add: wire_def encode_payload)
  have "split_on CHUNK_END (concat (wire P (e # evs)) @ r)
        = payload P e # split_on CHUNK_END (concat (wire P evs) @ r)"
    by (subst split_on_step [OF CHUNK_END_not_Nil]) (simp only: f option.case prod.case)
  with Cons show ?case by simp
qed

lemma pop_not_Nil: "xs \<noteq> [] \<Longrightarrow> pop xs = (Some (last xs), butlast xs)"
  by (cases xs rule: rev_cases) (simp_all add: pop_def)

lemma read_loop_step:
  "read_loop P (chunk # rest) buffer c =
     read_loop P rest (last (split_on CHUNK_END (buffer @ chunk)))
       (foldl (process_part P) c (butlast (split_on CHUNK_END (buffer @ chunk))))"
  by (simp add: pop_not_Nil split_on_not_Nil CHUNK_END_not_Nil)

lemma read_loop_whole:
  assumes "find_sep CHUNK_END buffer = None"
  shows "read_loop P cs buffer c =
           (last (split_on CHUNK_END (buffer @ concat cs)),
            foldl (process_part P) c (butlast (split_on CHUNK_END (buffer @ concat cs))))"
  using assms
proof (induction cs arbitrary: buffer c)
  case Nil
  then show ?case by (simp add: split_on_step CHUNK_END_not_Nil)
next
  case (Cons chunk rest)
  let ?X = "split_on CHUNK_END (buffer @ chunk)"
  have free: "find_sep CHUNK_END (last ?X) = None"
    by (rule split_on_last_free [OF CHUNK_END_not_Nil])
  have sp: "split_on CHUNK_END ((buffer @ chunk) @ concat rest)
        = butlast ?X @ split_on CHUNK_END (last ?X @ concat rest)"
    by (rule split_on_append [OF CHUNK_END_not_Nil])
  have ne: "split_on CHUNK_END (last ?X @ concat rest) \<noteq> []"
    by (rule split_on_not_Nil [OF CHUNK_END_not_Nil])
  from sp ne have l: "last (split_on CHUNK_END (buffer @ concat (chunk # rest)))
      = last (split_on CHUNK_END (last ?X @ concat rest))"
    by simp
  from sp ne have b: "butlast (split_on CHUNK_END (buffer @ concat (chunk # rest)))
      = butlast ?X @ butlast (split_on CHUNK_END (last ?X @ concat rest))"
    by (simp add: butlast_append)
  show ?case
    by (simp only: read_loop_step Cons.IH [OF free] l b foldl_append)
qed

lemma read_loop_chunks:
  "read_loop P cs [] c = read_loop P [concat cs] [] c"
proof -
  have "find_sep CHUNK_END [] = None" by (simp add: CHUNK_END_not_Nil)
  from read_loop_whole [OF this, of P cs c] read_loop_whole [OF this, of P "[concat cs]" c]
  show ?thesis by simp
qed

lemma not_space_brace: "\<not> is_js_space 123" "\<not> is_js_space 125"
  by (simp_all add: is_js_space_def)

lemma trim_payload: "trim (payload P e) = payload P e"
proof -
  from payload_braces obtain t where "payload P e = 123 # t @ [125]" by blast
  then show ?thesis by (simp add: trim_def not_space_brace)
qed

lemma payload_not_Nil: "payload P e \<noteq> []"
  using payload_braces [of P e] by auto

lemma parsed_add_frame: "parsed (snd (add_frame P d c)) = parsed c"
  by (simp add: add_frame_def split: sum.splits)

lemma parsed_dispatch: "parsed (snd (dispatch P d c)) = parsed c"
  by (auto simp: dispatch_def parsed_add_frame split: sum.splits)

lemma process_part_payload:
  assumes "wire_event e"
  shows "process_part P c (payload P e) =
     (case dispatch P (received e) (c\<lparr>parsed := parsed c @ [received e]\<rparr>) of
        (None, c') \<Rightarrow> c'
      | (Some x, c') \<Rightarrow> c'\<lparr>warned := warned c' @ [(payload P e, x)]\<rparr>)"
  by (simp add: process_part_def trim_payload payload_not_Nil JSON_parse_payload [OF assms]
      split: prod.splits option.splits)

lemma parsed_process_part:
  assumes "wire_event e"
  shows "parsed (process_part P c (payload P e)) = parsed c @ [received e]"
proof -
  obtain x c' where d: "dispatch P (received e) (c\<lparr>parsed := parsed c @ [received e]\<rparr>) = (x, c')"
    by force
  from parsed_dispatch [of P "received e" "c\<lparr>parsed := parsed c @ [received e]\<rparr>"] d
  have "parsed c' = parsed c @ [received e]" by simp
  with d show ?thesis
    by (cases x) (simp_all add: process_part_payload [OF assms])
qed

lemma parsed_foldl:
  assumes "\<forall>e \<in> set evs. wire_event e"
  shows "parsed (foldl (process_part P) c (map (payload P) evs)) = parsed c @ map received evs"
  using assms
proof (induction evs arbitrary: c)
  case Nil
  show ?case by simp
next
  case (Cons e evs)
  then show ?case by (simp add: parsed_process_part)
qed

lemma read_loop_wire:
  assumes "\<forall>e \<in> set evs. wire_event e"
  shows "read_loop P [concat (wire P evs)] [] c = ([], foldl (process_part P) c (map (payload P) evs))"
proof -
  have "find_sep CHUNK_END [] = None" by (simp add: CHUNK_END_not_Nil)
  from read_loop_whole [OF this, of P "[concat (wire P evs)]" c]
    split_wire [OF assms, of P "[]"]
  show ?thesis by (simp add: split_on_step [of _ "[]"] CHUNK_END_not_Nil)
qed

lemma str_or_undef_str_or_undefined: "str_or_undef (str_or_undefined s)"
  by (cases s) (simp_all add: str_or_undef_def str_or_undefined_def)

lemma frame_of_nanobanana_result:
  assumes "frame_of (nanobanana_result r) = Inr (Some ev)"
  shows "wire_event ev"
proof (cases "snd (scan_parts (first_parts r))")
  case None
  with assms show ?thesis
    by (simp add: nanobanana_result_def text_result_def frame_of_def get_prop_def own_def)
next
  case (Some res)
  then obtain b where "res = image_result b"
    by (auto simp: scan_parts_find split: option.splits)
  with Some assms show ?thesis
    by (auto simp: nanobanana_result_def image_result_def frame_of_def get_prop_def own_def
        wire_event_def str_or_undef_str_or_undefined)
qed

lemma for_poses_wire:
  assumes "for_poses P gc buffer ps s = (x, s')" and "\<forall>e \<in> set (queue s). wire_event e"
  shows "\<forall>e \<in> set (queue s'). wire_event e"
  using assms
proof (induction ps arbitrary: s)
  case Nil
  then show ?case by simp
next
  case (Cons pose rest)
  show ?case
  proof (cases "frame_prompt P pose")
    case (Inl e)
    with Cons.prems show ?thesis by simp
  next
    case pr: (Inr prompt)
    obtain out w' where nb: "nanobanana gc (world s) prompt buffer = (out, w')"
      by force
    show ?thesis
    proof (cases out)
      case (Inl e)
      with Cons.prems pr nb show ?thesis by auto
    next
      case r: (Inr r)
      with nanobanana_cases [OF nb] obtain g where g: "r = nanobanana_result g" by auto
      let ?s1 = "s\<lparr>world := w', renders := renders s @ [(prompt, Inr r)]\<rparr>"
      show ?thesis
      proof (cases "frame_of r")
        case (Inl e)
        with Cons.prems pr nb r show ?thesis by auto
      next
        case fr: (Inr f)
        show ?thesis
        proof (cases f)
          case None
          with Cons.prems pr nb r fr have "for_poses P gc buffer rest ?s1 = (x, s')" by simp
          from Cons.IH [OF this] Cons.prems(2) show ?thesis by simp
        next
          case (Some ev)
          with fr g have "wire_event ev" by (simp add: frame_of_nanobanana_result)
          with Cons.prems(2) have w: "\<forall>e \<in> set (queue (enqueue ev ?s1)). wire_event e"
            by (simp add: enqueue_def)
          from Cons.prems pr nb r fr Some have "for_poses P gc buffer rest (enqueue ev ?s1) = (x, s')"
            by simp
          from Cons.IH [OF this w] show ?thesis .
        qed
      qed
    qed
  qed
qed

lemma start_wire: "\<forall>e \<in> set (queue (start P gc img w)). wire_event e"
proof (cases img)
  case (FormText t)
  then show ?thesis by (simp add: start_text wire_event_def)
next
  case (FormFile f)
  show ?thesis
  proof (cases "arrayBuffer f")
    case (Inl e)
    with FormFile show ?thesis by (simp add: start_unreadable wire_event_def)
  next
    case (Inr buffer)
    obtain pl w' where pl: "generatePosesFromImageBuffer gc w buffer (type f) 12 = (pl, w')"
      by force
    show ?thesis
    proof (cases pl)
      case (Inl e)
      with start_planner_fails [OF Inr, of gc w e w' P] pl FormFile show ?thesis
        by (simp add: wire_event_def)
    next
      case poses: (Inr poses)
      have p: "wire_event (PosesEvent (str_or_undefined poses))"
        by (simp add: wire_event_def str_or_undef_str_or_undefined)
      show ?thesis
      proof (cases "JSON_parse (case poses of None \<Rightarrow> lit ''[]'' | Some t \<Rightarrow> t)")
        case (Inl e)
        with start_parse_fails [OF Inr, of gc w poses w' e P] pl poses FormFile p show ?thesis
          by (simp add: wire_event_def)
      next
        case v: (Inr v)
        show ?thesis
        proof (cases "\<exists>ps. v = JArr ps")
          case False
          then have "\<forall>ps. v \<noteq> JArr ps" by simp
          with start_not_array [OF Inr, of gc w poses w' v P] pl poses v FormFile p show ?thesis
            by (simp add: wire_event_def)
        next
          case True
          then obtain ps where ps: "v = JArr ps" by blast
          let ?s1 = "\<lparr>world = w', queue = [PosesEvent (str_or_undefined poses)], closed = False, renders = []\<rparr>"
          obtain x s2 where run: "for_poses P gc buffer ps ?s1 = (x, s2)" by force
          from p have "\<forall>e \<in> set (queue ?s1). wire_event e" by simp
          from for_poses_wire [OF run this] have s2: "\<forall>e \<in> set (queue s2). wire_event e" .
          have "start P gc (FormFile f) w =
              close (enqueue (case x of None \<Rightarrow> CompleteEvent | Some e \<Rightarrow> ErrorEvent (error_message P e)) s2)"
            using start_array [OF Inr, of gc w poses w' ps P x s2] pl poses v ps run by simp
          with s2 FormFile show ?thesis
            by (cases x) (simp_all add: close_def enqueue_def wire_event_def)
        qed
      qed
    qed
  qed
qed

lemma route_events_wire: "\<forall>e \<in> set (stream_events (POST P gc req w)). wire_event e"
  by (auto simp: POST_def stream_events_def start_wire split: sum.splits option.splits)

lemma example_stream:
  "stream_events (POST example_platform example_remote example_request 0) =
     [PosesEvent (JStr three_poses),
      FrameEvent (JStr (lit ''AAAA'')) (JStr (lit ''image/png'')),
      FrameEvent (JStr (lit ''BBBB'')) (JStr (lit ''image/png'')),
      CompleteEvent]"
  by (simp add: example_POST stream_events_def example_run)

lemma example_events_wire: "list_all wire_event example_events"
  by (simp add: example_events_def wire_event_def str_or_undef_def)

lemma dispatch_error:
  "dispatch P (received (ErrorEvent m)) c = (Some (Error m), c)"
  by (simp add: dispatch_def received_def event_obj_def get_prop_def own_def)

lemma dispatch_complete:
  "dispatch P (received CompleteEvent) c =
     (None, c\<lparr>generationProgress := lit ''Animation generation complete!'',
              timers := timers c @ [3000]\<rparr>)"
  by (simp add: dispatch_def received_def event_obj_def get_prop_def own_def)

text \<open>What the page does with a frame and with the poses the route sent.\<close>

lemma dispatch_frame:
  assumes "b \<noteq> []"
  shows "dispatch P (received (FrameEvent (JStr b) (JStr m))) c =
     (None,
      c\<lparr>generationProgress := lit ''Animation frame generated!'',
        generatedImages :=
          generatedImages c @
            [lit ''data:'' @ (if m = [] then lit ''image/png'' else m) @ lit '';base64,'' @ b],
        frames :=
          frames c @
            [\<lparr>url = lit ''data:'' @ (if m = [] then lit ''image/png'' else m) @ lit '';base64,'' @ b,
              fileType = (if m = [] then lit ''image/png'' else m)\<rparr>]\<rparr>)"
  using assms
  by (simp add: dispatch_def received_def defined_members_def get_prop_def own_def add_frame_def
      truthy_def or_else_def)

lemma dispatch_frame_untyped:
  assumes "b \<noteq> []"
  shows "dispatch P (received (FrameEvent (JStr b) JUndefined)) c =
     (None,
      c\<lparr>generationProgress := lit ''Animation frame generated!'',
        generatedImages := generatedImages c @ [lit ''data:image/png;base64,'' @ b],
        frames :=
          frames c @
            [\<lparr>url = lit ''data:image/png;base64,'' @ b, fileType = lit ''image/png''\<rparr>]\<rparr>)"
  using assms
  by (simp add: dispatch_def received_def defined_members_def get_prop_def own_def add_frame_def
      truthy_def or_else_def lit_def)

lemma dispatch_poses:
  "dispatch P (received (PosesEvent (JStr t))) c =
     (None, c\<lparr>generationProgress := lit ''Poses generated! Creating animation frames...'',
              generatedPoses := JStr t\<rparr>)"
  by (simp add: dispatch_def received_def defined_members_def get_prop_def own_def)

lemma error_part:
  "process_part P c (payload P (ErrorEvent m)) =
     c\<lparr>parsed := parsed c @ [received (ErrorEvent m)],
       warned := warned c @ [(payload P (ErrorEvent m), Error m)]\<rparr>"
  by (simp add: process_part_payload wire_event_def dispatch_error)

lemma error_stream:
  "read_loop P [encode P (ErrorEvent m)] [] c =
     ([], c\<lparr>parsed := parsed c @ [received (ErrorEvent m)],
            warned := warned c @ [(payload P (ErrorEvent m), Error m)]\<rparr>)"
proof -
  have "\<forall>e \<in> set [ErrorEvent m]. wire_event e" by (simp add: wire_event_def)
  from read_loop_wire [OF this, of P c] show ?thesis
    by (simp add: wire_def error_part)
qed

lemma error_event_page:
  "generateAnimation P (Some f) (streamed [encode P (ErrorEvent m)]) c =
     c\<lparr>isGenerating := False, generationProgress := lit ''Starting generation...'',
       generatedPoses := JNull, generatedImages := [],
       parsed := parsed c @ [received (ErrorEvent m)],
       warned := warned c @ [(payload P (ErrorEvent m), Error m)]\<rparr>"
  by (simp add: generateAnimation_def try_generate_def streamed_def error_stream
      del: read_loop.simps)

lemma fetch_failure_page:
  "generateAnimation P (Some f) (Inl (Error m)) c =
     c\<lparr>isGenerating := False, generationProgress := lit ''Error: '' @ m,
       generatedPoses := JNull, generatedImages := [], timers := timers c @ [5000]\<rparr>"
  by (simp add: generateAnimation_def try_generate_def error_message_def)

section \<open>The claims about the wire and the page\<close>

text \<open>
  Claim C5. Every event the route sends has strings (or nothing) as its data, and its
  serialised object does not contain the separator \<open>\n---CHUNK_END---\n\<close>; the separator
  occurs in the text of the stream only where it was appended after an object, so that
  splitting the whole text at it gives the serialised objects, in order, and an empty rest.
\<close>

theorem separator_only_between_events:
  "(\<forall>e \<in> set (stream_events (POST P gc req w)).
       wire_event e \<and> \<not> occurs CHUNK_END (payload P e))
   \<and> split_on CHUNK_END (concat (wire P (stream_events (POST P gc req w))))
       = map (payload P) (stream_events (POST P gc req w)) @ [[]]"
proof -
  have "\<not> occurs CHUNK_END (payload P e)" if "wire_event e" for e
  proof
    assume "occurs CHUNK_END (payload P e)"
    then have "set CHUNK_END \<subseteq> set (payload P e)" by (rule occurs_subset)
    moreover have "10 \<in> set CHUNK_END" by (simp add: CHUNK_END_Cons)
    ultimately show False using newline_free_payload [OF that, of P] by auto
  qed
  moreover have "split_on CHUNK_END [] = [[]]"
    by (simp add: split_on_step CHUNK_END_not_Nil)
  ultimately show ?thesis
    using route_events_wire [of P gc req w]
      split_wire [OF route_events_wire [of P gc req w], of P "[]"]
    by simp
qed

text \<open>
  Witness of C5: the run with three poses.
\<close>

theorem separator_only_between_events_witness:
  "stream_events (POST example_platform example_remote example_request 0) =
     [PosesEvent (JStr three_poses),
      FrameEvent (JStr (lit ''AAAA'')) (JStr (lit ''image/png'')),
      FrameEvent (JStr (lit ''BBBB'')) (JStr (lit ''image/png'')),
      CompleteEvent]
   \<and> list_all (\<lambda>e. wire_event e \<and> \<not> occurs CHUNK_END (payload example_platform e))
        (stream_events (POST example_platform example_remote example_request 0))
   \<and> split_on CHUNK_END
        (concat (wire example_platform
           (stream_events (POST example_platform example_remote example_request 0))))
       = map (payload example_platform)
           (stream_events (POST example_platform example_remote example_request 0)) @ [[]]"
proof -
  note t = separator_only_between_events [of example_platform example_remote example_request 0]
  from conjunct1 [OF t] have a: "list_all (\<lambda>e. wire_event e \<and> \<not> occurs CHUNK_END (payload example_platform e))
        (stream_events (POST example_platform example_remote example_request 0))"
    by (simp only: list_all_iff)
  from t have b: "split_on CHUNK_END
        (concat (wire example_platform
           (stream_events (POST example_platform example_remote example_request 0))))
       = map (payload example_platform)
           (stream_events (POST example_platform example_remote example_request 0)) @ [[]]"
    by (rule conjunct2)
  show ?thesis by (intro conjI example_stream a b)
qed

text \<open>
  Claim C4. For every sequence of events as the route sends them, and every way of cutting
  the text of the stream into chunks (also inside the separator or inside a string), the
  read loop of the page ends in the same state as when the text comes in one piece, with
  an empty buffer; the values it parsed are the objects that were serialised, in order,
  each string the same as sent.
\<close>

theorem decoder_reassembles:
  assumes "\<forall>e \<in> set evs. wire_event e" and "concat cs = concat (wire P evs)"
  shows "read_loop P cs [] c = read_loop P [concat (wire P evs)] [] c
         \<and> fst (read_loop P cs [] c) = []
         \<and> parsed (snd (read_loop P cs [] c)) = parsed c @ map received evs"
  using read_loop_chunks [of P cs c] read_loop_wire [OF assms(1), of P c] assms(2)
    parsed_foldl [OF assms(1), of P c]
  by simp

text \<open>
  Witness of C4: four events, delivered one code unit at a time.
\<close>

theorem decoder_reassembles_witness:
  "list_all wire_event example_events
   \<and> concat (map (\<lambda>u. [u]) (concat (wire example_platform example_events)))
       = concat (wire example_platform example_events)
   \<and> read_loop example_platform
        (map (\<lambda>u. [u]) (concat (wire example_platform example_events))) [] empty_page
       = read_loop example_platform [concat (wire example_platform example_events)] [] empty_page
   \<and> fst (read_loop example_platform
        (map (\<lambda>u. [u]) (concat (wire example_platform example_events))) [] empty_page) = []
   \<and> parsed (snd (read_loop example_platform
        (map (\<lambda>u. [u]) (concat (wire example_platform example_events))) [] empty_page))
       = map received example_events"
proof -
  have 1: "\<forall>e \<in> set example_events. wire_event e"
    using example_events_wire by (simp only: list_all_iff)
  have 2: "concat (map (\<lambda>u. [u]) (concat (wire example_platform example_events)))
       = concat (wire example_platform example_events)"
    by (induction "concat (wire example_platform example_events)") simp_all
  have 3: "parsed empty_page = []" by (simp add: empty_page_def)
  note d = decoder_reassembles [OF 1 2, of empty_page]
  from d have c1: "read_loop example_platform
        (map (\<lambda>u. [u]) (concat (wire example_platform example_events))) [] empty_page
       = read_loop example_platform [concat (wire example_platform example_events)] [] empty_page"
    by (rule conjunct1)
  from d have c2: "fst (read_loop example_platform
        (map (\<lambda>u. [u]) (concat (wire example_platform example_events))) [] empty_page) = []"
    by (rule conjunct1 [OF conjunct2])
  from conjunct2 [OF conjunct2 [OF d]]
  have c3: "parsed (snd (read_loop example_platform
        (map (\<lambda>u. [u]) (concat (wire example_platform example_events))) [] empty_page))
       = map received example_events"
    by (simp only: 3 append_Nil)
  show ?thesis by (intro conjI example_events_wire 2 c1 c2 c3)
qed

text \<open>
  Claim C8, which the code does not meet: the \<open>throw\<close> of the \<open>error\<close> case is inside the
  \<open>try\<close> whose \<open>catch\<close> only warns. For the stream of a failed planner call the page ends
  with the progress text \<open>Starting generation...\<close>, not with the message, which only went
  to \<open>console.warn\<close>, and no timer is set; the handler the \<open>throw\<close> was written for gives
  \<open>Error: down\<close>, as it does when \<open>fetch\<close> rejects.
\<close>

theorem error_event_is_only_warned:
  "generationProgress
     (generateAnimation example_platform (Some example_file)
        (streamed [encode example_platform (ErrorEvent (lit ''down''))]) empty_page)
     = lit ''Starting generation...''
   \<and> generationProgress
     (generateAnimation example_platform (Some example_file)
        (streamed [encode example_platform (ErrorEvent (lit ''down''))]) empty_page)
     \<noteq> lit ''Error: down''
   \<and> warned
     (generateAnimation example_platform (Some example_file)
        (streamed [encode example_platform (ErrorEvent (lit ''down''))]) empty_page)
     = [(payload example_platform (ErrorEvent (lit ''down'')), Error (lit ''down''))]
   \<and> timers
     (generateAnimation example_platform (Some example_file)
        (streamed [encode example_platform (ErrorEvent (lit ''down''))]) empty_page)
     = []
   \<and> generationProgress
     (generateAnimation example_platform (Some example_file) (Inl (Error (lit ''down''))) empty_page)
     = lit ''Error: down''"
  by (simp add: error_event_page fetch_failure_page empty_page_def lit_def)

end
